theory Spec2Isabelle
  imports Complex_Main
begin

section \<open>DRSpy digitizer reader: data model\<close>

text \<open>
  A shallow embedding of \<^verbatim>\<open>src/DRSpy/plugins/digitizer_reader.py\<close>.

  \<^item> Exceptions are values of \<open>error\<close>; a function that can raise returns
    \<open>error + 'a\<close> with \<open>Inl\<close> for the exception.
  \<^item> The arrays have the types that the annotations of the reader give them:
    \<^verbatim>\<open>get_timestamps\<close> yields integers (\<^verbatim>\<open>List[int]\<close>, and \<^verbatim>\<open>timestamp: int\<close> in the
    event), \<^verbatim>\<open>get_waveforms\<close> yields one matrix of float samples per channel. Files
    whose branches have other shapes are outside the embedding.
  \<^item> The timestamps are a NumPy integer array: it has an element type \<open>dtype\<close>, fixed
    by the file that is read, and arithmetic on it stays in that type.
  \<^item> The source pins no NumPy version. Where versions differ, the behaviour is a
    field of the record \<open>numpy\<close> that the functions take.
  \<^item> Waveform samples are finite floating point values, read as the real numbers
    they denote. Minimum and sign change are exact on them. The operations that
    round (mean, subtraction, division) are not fixed by the embedding: they are the
    fields of a \<open>float_ops\<close> record that the preprocessing functions take.
  \<^item> In-place mutation of the container becomes state passing.
\<close>

datatype error =
    ValueError
  | IndexError
  | KeyError
  | StopIteration
  | OverflowError
  | InvalidWaveformError

text \<open>
  \<open>ValueError\<close>, \<open>IndexError\<close>, \<open>KeyError\<close>, \<open>StopIteration\<close> and \<open>OverflowError\<close> are
  the Python exceptions the source can raise. \<open>InvalidWaveformError\<close> is a name of the
  specification's taxonomy; no function below returns it. \<open>and_then\<close> sequences two
  steps the first of which may raise.
\<close>

definition and_then :: "error + 'a \<Rightarrow> ('a \<Rightarrow> error + 'b) \<Rightarrow> error + 'b" where
  "and_then m f = (case m of Inl e \<Rightarrow> Inl e | Inr x \<Rightarrow> f x)"

text \<open>
  The integer element types of NumPy, their ranges, and the value that an integer has
  after it is stored in such a type (two's complement wrap-around).
\<close>

datatype dtype = int8 | int16 | int32 | int64 | uint8 | uint16 | uint32 | uint64

fun dtype_bits :: "dtype \<Rightarrow> nat" where
  "dtype_bits int8 = 8"
| "dtype_bits int16 = 16"
| "dtype_bits int32 = 32"
| "dtype_bits int64 = 64"
| "dtype_bits uint8 = 8"
| "dtype_bits uint16 = 16"
| "dtype_bits uint32 = 32"
| "dtype_bits uint64 = 64"

fun dtype_signed :: "dtype \<Rightarrow> bool" where
  "dtype_signed int8 = True"
| "dtype_signed int16 = True"
| "dtype_signed int32 = True"
| "dtype_signed int64 = True"
| "dtype_signed uint8 = False"
| "dtype_signed uint16 = False"
| "dtype_signed uint32 = False"
| "dtype_signed uint64 = False"

definition dtype_min :: "dtype \<Rightarrow> int" where
  "dtype_min dt = (if dtype_signed dt then - (2 ^ (dtype_bits dt - 1)) else 0)"

definition dtype_max :: "dtype \<Rightarrow> int" where
  "dtype_max dt =
     (if dtype_signed dt then 2 ^ (dtype_bits dt - 1) - 1 else 2 ^ dtype_bits dt - 1)"

definition in_range :: "dtype \<Rightarrow> int \<Rightarrow> bool" where
  "in_range dt x = (dtype_min dt \<le> x \<and> x \<le> dtype_max dt)"

definition wrap :: "dtype \<Rightarrow> int \<Rightarrow> int" where
  "wrap dt x = (x - dtype_min dt) mod 2 ^ dtype_bits dt + dtype_min dt"

text \<open>
  What depends on the NumPy version:
  \<^item> \<open>int_out_of_bounds\<close>: the result of \<^verbatim>\<open>a[k:] += d\<close> on an integer array when the
    Python integer \<open>d\<close> is outside the range of the array's type (NumPy 2 raises
    \<^verbatim>\<open>OverflowError\<close>, NumPy 1 casts). Its arguments are the type, \<open>k\<close>, \<open>d\<close> and the
    array.
  \<^item> \<open>inhomogeneous_error\<close>: what \<^verbatim>\<open>np.array\<close> raises on a list of arrays of different
    shapes (\<^verbatim>\<open>ValueError\<close> since NumPy 1.24), or \<open>None\<close> where it builds an array of
    objects.
\<close>

record numpy =
  int_out_of_bounds :: "dtype \<Rightarrow> nat \<Rightarrow> int \<Rightarrow> int list \<Rightarrow> error + int list"
  inhomogeneous_error :: "error option"

record RawDataContainer =
  channels :: "int list"
  waveforms :: "real list list list"
  timestamps :: "int list"
  timestamps_dtype :: dtype

section \<open>Preprocessor.correct\_timestamps\<close>

text \<open>
  \<^verbatim>\<open>
  reset_indices = np.where(timestamps[:-1] > timestamps[1:])[0] + 1
  increment = 2**30
  for i, reset_index in enumerate(reset_indices):
      timestamps[reset_index:] += increment * (i + 1)
  \<close>
  The addition is done in place in the array's integer type: when \<^verbatim>\<open>increment * (i + 1)\<close>
  is within the range of the type, every sum is stored wrapped around; when it is
  outside, the outcome is that of \<open>int_out_of_bounds\<close>.
\<close>

definition greater_mask :: "int list \<Rightarrow> bool list" where
  "greater_mask ts = map (\<lambda>(a, b). a > b) (zip (butlast ts) (tl ts))"

definition np_where :: "bool list \<Rightarrow> nat list" where
  "np_where m = filter (\<lambda>i. m ! i) [0..<length m]"

definition reset_indices :: "int list \<Rightarrow> nat list" where
  "reset_indices ts = map (\<lambda>i. i + 1) (np_where (greater_mask ts))"

definition increment :: int where
  "increment = 2 ^ 30"

definition iadd_from :: "numpy \<Rightarrow> dtype \<Rightarrow> nat \<Rightarrow> int \<Rightarrow> int list \<Rightarrow> error + int list" where
  "iadd_from np dt reset_index d ts =
     (if in_range dt d
      then Inr (take reset_index ts @ map (\<lambda>t. wrap dt (t + d)) (drop reset_index ts))
      else int_out_of_bounds np dt reset_index d ts)"

fun increment_loop ::
  "numpy \<Rightarrow> dtype \<Rightarrow> (nat \<times> nat) list \<Rightarrow> int list \<Rightarrow> error + int list" where
  "increment_loop np dt [] ts = Inr ts"
| "increment_loop np dt ((i, reset_index) # rest) ts =
     (case iadd_from np dt reset_index (increment * (int i + 1)) ts of
        Inl e \<Rightarrow> Inl e
      | Inr ts1 \<Rightarrow> increment_loop np dt rest ts1)"

definition correct_timestamps :: "numpy \<Rightarrow> RawDataContainer \<Rightarrow> error + RawDataContainer" where
  "correct_timestamps np c =
     and_then
       (increment_loop np (timestamps_dtype c) (enumerate 0 (reset_indices (timestamps c)))
          (timestamps c))
       (\<lambda>ts. Inr (c\<lparr>timestamps := ts\<rparr>))"

section \<open>Python strings, lists and integers as the reader uses them\<close>

text \<open>
  Keys of the data source are ASCII strings.
\<close>

definition list_get :: "'a list \<Rightarrow> nat \<Rightarrow> error + 'a" where
  "list_get xs i = (if i < length xs then Inr (xs ! i) else Inl IndexError)"

definition startswith :: "string \<Rightarrow> string \<Rightarrow> bool" where
  "startswith s p = (take (length p) s = p)"

text \<open>\<^verbatim>\<open>sub in s\<close> on strings.\<close>

fun str_contains :: "string \<Rightarrow> string \<Rightarrow> bool" where
  "str_contains sub [] = (sub = [])"
| "str_contains sub (c # s) = (startswith (c # s) sub \<or> str_contains sub s)"

text \<open>
  \<^verbatim>\<open>s.split(sep)\<close>: cut at every occurrence of \<open>sep\<close>, scanning from the left; an
  empty separator raises \<^verbatim>\<open>ValueError\<close>.
\<close>

fun split_from :: "string \<Rightarrow> string \<Rightarrow> string \<Rightarrow> string list" where
  "split_from sep cur [] = [cur]"
| "split_from sep cur (c # s) =
     (if startswith (c # s) sep then cur # split_from sep [] (drop (length sep - 1) s)
      else split_from sep (cur @ [c]) s)"

definition str_split :: "string \<Rightarrow> string \<Rightarrow> error + string list" where
  "str_split s sep = (if sep = [] then Inl ValueError else Inr (split_from sep [] s))"

text \<open>
  \<^verbatim>\<open>int(s)\<close> on a string, base 10: surrounding whitespace is dropped, one sign is
  allowed, then decimal digits with single underscores between them. CPython
  refuses more than \<open>int_max_str_digits\<close> digits (the default of
  \<^verbatim>\<open>sys.get_int_max_str_digits()\<close>). Every failure is a \<^verbatim>\<open>ValueError\<close>.
\<close>

definition is_space :: "char \<Rightarrow> bool" where
  "is_space c = ((of_char c :: nat) \<in> {9, 10, 11, 12, 13, 28, 29, 30, 31, 32})"

definition str_strip :: "string \<Rightarrow> string" where
  "str_strip s = rev (dropWhile is_space (rev (dropWhile is_space s)))"

definition digit_value :: "char \<Rightarrow> nat option" where
  "digit_value c =
     (let n = (of_char c :: nat) in if 48 \<le> n \<and> n \<le> 57 then Some (n - 48) else None)"

definition int_max_str_digits :: nat where
  "int_max_str_digits = 4300"

fun digits_value :: "nat \<Rightarrow> string \<Rightarrow> nat option" where
  "digits_value acc [] = Some acc"
| "digits_value acc [c] =
     (case digit_value c of Some v \<Rightarrow> Some (10 * acc + v) | None \<Rightarrow> None)"
| "digits_value acc (c # d # ds) =
     (case digit_value c of
        Some v \<Rightarrow> digits_value (10 * acc + v) (d # ds)
      | None \<Rightarrow>
          if c = CHR ''_'' then
            (case digit_value d of
               Some v \<Rightarrow> digits_value (10 * acc + v) ds
             | None \<Rightarrow> None)
          else None)"

definition split_sign :: "string \<Rightarrow> bool \<times> string" where
  "split_sign t =
     (case t of
        [] \<Rightarrow> (False, t)
      | c # r \<Rightarrow>
          if c = CHR ''-'' then (True, r) else if c = CHR ''+'' then (False, r) else (False, t))"

definition py_int :: "string \<Rightarrow> error + int" where
  "py_int s =
     (case split_sign (str_strip s) of (neg, body) \<Rightarrow>
        (case body of
           [] \<Rightarrow> Inl ValueError
         | d # ds \<Rightarrow>
             (case digit_value d of
                None \<Rightarrow> Inl ValueError
              | Some v \<Rightarrow>
                  (case digits_value v ds of
                     None \<Rightarrow> Inl ValueError
                   | Some n \<Rightarrow>
                       if int_max_str_digits < length (filter (\<lambda>c. c \<noteq> CHR ''_'') body)
                       then Inl ValueError
                       else Inr (if neg then - int n else int n)))))"

text \<open>
  \<^verbatim>\<open>f'{channel}'\<close> for an integer: its decimal digits, with a minus sign when
  negative; CPython raises \<^verbatim>\<open>ValueError\<close> beyond \<open>int_max_str_digits\<close> digits.
\<close>

function str_nat :: "nat \<Rightarrow> string" where
  "str_nat n =
     (if n < 10 then [char_of (48 + n)] else str_nat (n div 10) @ [char_of (48 + n mod 10)])"
  by pat_completeness auto
termination
  by (relation "measure (\<lambda>n. n)") auto

definition format_int :: "int \<Rightarrow> error + string" where
  "format_int i =
     (let ds = str_nat (nat \<bar>i\<bar>) in
      if int_max_str_digits < length ds then Inl ValueError
      else Inr (if i < 0 then CHR ''-'' # ds else ds))"

section \<open>RawDataContainer\<close>

text \<open>
  The opened tree (\<^verbatim>\<open>uproot.open(f'{file}:tree')\<close>, the result of \<^verbatim>\<open>read_file\<close>) is
  the black box of the reader and an input of the model. It is what the reader
  observes of it: \<^verbatim>\<open>keys()\<close> in order, the matrix that
  \<^verbatim>\<open>file_content[key].array(library='np')\<close> gives for a waveform key (events by
  samples), and the integer array with its element type that it gives for the key
  \<^verbatim>\<open>timestamp\<close>; a read that raises is the error (\<^verbatim>\<open>KeyError\<close> for a key the tree
  does not have).

  \<^verbatim>\<open>
  channels = [int(channel.split('_')[0].split('channel')[1])
              for channel in self.file_content.keys() if 'waveforms' in channel]
  channels = list(set(channels))
  \<close>
  The order in which CPython iterates a set is a function of the values inserted; it
  is the parameter \<open>set_order\<close>.
\<close>

record tree =
  tree_keys :: "string list"
  waveform_array :: "string \<Rightarrow> error + real list list"
  timestamp_array :: "error + (dtype \<times> int list)"

definition channel_of_key :: "string \<Rightarrow> error + int" where
  "channel_of_key channel =
     and_then (str_split channel ''_'') (\<lambda>parts.
     and_then (list_get parts 0) (\<lambda>head.
     and_then (str_split head ''channel'') (\<lambda>pieces.
     and_then (list_get pieces 1) py_int)))"

fun channel_numbers :: "string list \<Rightarrow> error + int list" where
  "channel_numbers [] = Inr []"
| "channel_numbers (channel # keys) =
     (if str_contains ''waveforms'' channel then
        (case channel_of_key channel of
           Inl e \<Rightarrow> Inl e
         | Inr n \<Rightarrow>
             (case channel_numbers keys of Inl e \<Rightarrow> Inl e | Inr ns \<Rightarrow> Inr (n # ns)))
      else channel_numbers keys)"

definition get_channel_list :: "(int list \<Rightarrow> int list) \<Rightarrow> tree \<Rightarrow> error + int list" where
  "get_channel_list set_order file_content =
     and_then (channel_numbers (tree_keys file_content)) (\<lambda>ns. Inr (set_order ns))"

fun get_waveforms :: "tree \<Rightarrow> int list \<Rightarrow> error + real list list list" where
  "get_waveforms file_content [] = Inr []"
| "get_waveforms file_content (channel # rest) =
     (case format_int channel of
        Inl e \<Rightarrow> Inl e
      | Inr n \<Rightarrow>
          (case waveform_array file_content (''channel'' @ n @ ''_waveforms'') of
             Inl e \<Rightarrow> Inl e
           | Inr m \<Rightarrow>
               (case get_waveforms file_content rest of
                  Inl e \<Rightarrow> Inl e
                | Inr ms \<Rightarrow> Inr (m # ms))))"

definition get_timestamps :: "tree \<Rightarrow> error + (dtype \<times> int list)" where
  "get_timestamps file_content = timestamp_array file_content"

text \<open>
  \<^verbatim>\<open>np.array(self.get_waveforms())\<close> stacks the matrices of the channels into one
  array when they all have the same shape. A matrix is the list of its rows, so a
  matrix without rows carries no sample count: two such matrices count as equal in
  shape.
\<close>

definition same_shape :: "real list list list \<Rightarrow> bool" where
  "same_shape ms = (\<forall>m \<in> set ms. map length m = map length (hd ms))"

definition np_array :: "numpy \<Rightarrow> real list list list \<Rightarrow> error + real list list list" where
  "np_array np ms =
     (if same_shape ms then Inr ms
      else (case inhomogeneous_error np of None \<Rightarrow> Inr ms | Some e \<Rightarrow> Inl e))"

definition RawDataContainer_init ::
  "numpy \<Rightarrow> (int list \<Rightarrow> int list) \<Rightarrow> tree \<Rightarrow> error + RawDataContainer" where
  "RawDataContainer_init np set_order file_content =
     and_then (get_channel_list set_order file_content) (\<lambda>chans.
     and_then (get_waveforms file_content chans) (\<lambda>wfs.
     and_then (np_array np wfs) (\<lambda>arr.
     and_then (get_timestamps file_content) (\<lambda>(dt, ts).
       Inr \<lparr>channels = chans, waveforms = arr, timestamps = ts, timestamps_dtype = dt\<rparr>))))"

section \<open>Preprocessor\<close>

text \<open>
  \<^verbatim>\<open>
  for i, channel in enumerate(self.RawDataContainer.channels):
      baselines = np.mean(self.RawDataContainer.waveforms[i][:, :50], axis=1, keepdims=True)
      self.RawDataContainer.waveforms[i] -= baselines
  \<close>
  and the same loop with \<^verbatim>\<open>waveforms[i] /= 4096\<close>. The loop runs over the positions
  of \<open>channels\<close> and indexes \<open>waveforms\<close>; a position beyond the array raises
  \<^verbatim>\<open>IndexError\<close>. The floating point mean, subtraction and division are the fields
  of \<open>float_ops\<close>.
\<close>

record float_ops =
  fl_mean :: "real list \<Rightarrow> real"
  fl_sub :: "real \<Rightarrow> real \<Rightarrow> real"
  fl_div :: "real \<Rightarrow> real \<Rightarrow> real"

definition baseline_rows :: "float_ops \<Rightarrow> real list list \<Rightarrow> real list list" where
  "baseline_rows ops m = map (\<lambda>w. map (\<lambda>x. fl_sub ops x (fl_mean ops (take 50 w))) w) m"

definition volts_rows :: "float_ops \<Rightarrow> real list list \<Rightarrow> real list list" where
  "volts_rows ops m = map (map (\<lambda>x. fl_div ops x 4096)) m"

fun for_each_channel ::
  "(real list list \<Rightarrow> real list list) \<Rightarrow> nat list \<Rightarrow> real list list list
   \<Rightarrow> error + real list list list" where
  "for_each_channel f [] wfs = Inr wfs"
| "for_each_channel f (i # rest) wfs =
     (if i < length wfs then for_each_channel f rest (wfs[i := f (wfs ! i)])
      else Inl IndexError)"

definition subtract_baseline :: "float_ops \<Rightarrow> RawDataContainer \<Rightarrow> error + RawDataContainer" where
  "subtract_baseline ops c =
     and_then (for_each_channel (baseline_rows ops) [0..<length (channels c)] (waveforms c))
       (\<lambda>wfs. Inr (c\<lparr>waveforms := wfs\<rparr>))"

definition turn_into_volts :: "float_ops \<Rightarrow> RawDataContainer \<Rightarrow> error + RawDataContainer" where
  "turn_into_volts ops c =
     and_then (for_each_channel (volts_rows ops) [0..<length (channels c)] (waveforms c))
       (\<lambda>wfs. Inr (c\<lparr>waveforms := wfs\<rparr>))"

definition preprocess_raw_data ::
  "numpy \<Rightarrow> float_ops \<Rightarrow> RawDataContainer \<Rightarrow> error + RawDataContainer" where
  "preprocess_raw_data np ops c =
     and_then (subtract_baseline ops c) (\<lambda>c1.
     and_then (turn_into_volts ops c1) (\<lambda>c2.
       correct_timestamps np c2))"

definition preprocess ::
  "numpy \<Rightarrow> float_ops \<Rightarrow> RawDataContainer \<Rightarrow> error + RawDataContainer" where
  "preprocess np ops c = preprocess_raw_data np ops c"

section \<open>DigitizerEvent\<close>

text \<open>
  \<^verbatim>\<open>self.amplitude = np.amin(self.waveform) * -1\<close> in \<^verbatim>\<open>__post_init__\<close>:
  the field is set when the event is built. \<^verbatim>\<open>np.amin\<close> of an empty array raises
  \<^verbatim>\<open>ValueError\<close>.
\<close>

record DigitizerEvent =
  waveform :: "real list"
  timestamp :: int
  amplitude :: real

definition np_amin :: "real list \<Rightarrow> error + real" where
  "np_amin xs = (case xs of [] \<Rightarrow> Inl ValueError | x # rest \<Rightarrow> Inr (fold min rest x))"

definition DigitizerEvent_init :: "real list \<Rightarrow> int \<Rightarrow> error + DigitizerEvent" where
  "DigitizerEvent_init w t =
     and_then (np_amin w) (\<lambda>m. Inr \<lparr>waveform = w, timestamp = t, amplitude = m * - 1\<rparr>)"

section \<open>DigitizerEventData\<close>

text \<open>
  \<^verbatim>\<open>itertools.cycle\<close>: the first pass yields the elements of the iterable and saves
  them; when a pass is over, the saved elements are yielded again, for ever. With
  nothing saved, \<^verbatim>\<open>next\<close> raises \<^verbatim>\<open>StopIteration\<close>.
\<close>

datatype cycle = Filling "int list" "int list" | Replaying "int list" "int list"

definition cycle_init :: "int list \<Rightarrow> cycle" where
  "cycle_init ts = Filling ts []"

fun cycle_next :: "cycle \<Rightarrow> error + (int \<times> cycle)" where
  "cycle_next (Filling (x # pending) saved) = Inr (x, Filling pending (saved @ [x]))"
| "cycle_next (Filling [] saved) =
     (case saved of [] \<Rightarrow> Inl StopIteration | x # pending \<Rightarrow> Inr (x, Replaying pending saved))"
| "cycle_next (Replaying (x # pending) saved) = Inr (x, Replaying pending saved)"
| "cycle_next (Replaying [] saved) =
     (case saved of [] \<Rightarrow> Inl StopIteration | x # pending \<Rightarrow> Inr (x, Replaying pending saved))"

text \<open>
  \<^verbatim>\<open>
  timestamps = cycle(self.data.timestamps)
  events_dict = {}
  for channel, waveforms in zip(self.data.channels, self.data.waveforms):
      events_dict[channel] = [DigitizerEvent(waveform = waveform, timestamp = next(timestamps))
                              for waveform in waveforms]
  return events_dict
  \<close>
  The arguments of the constructor are evaluated first, so \<^verbatim>\<open>next\<close> comes before
  the minimum of the waveform.
\<close>

fun channel_events ::
  "cycle \<Rightarrow> real list list \<Rightarrow> error + (DigitizerEvent list \<times> cycle)" where
  "channel_events cur [] = Inr ([], cur)"
| "channel_events cur (w # ws) =
     (case cycle_next cur of
        Inl e \<Rightarrow> Inl e
      | Inr (t, cur1) \<Rightarrow>
          (case DigitizerEvent_init w t of
             Inl e \<Rightarrow> Inl e
           | Inr ev \<Rightarrow>
               (case channel_events cur1 ws of
                  Inl e \<Rightarrow> Inl e
                | Inr (evs, cur2) \<Rightarrow> Inr (ev # evs, cur2))))"

fun events_loop ::
  "cycle \<Rightarrow> (int \<rightharpoonup> DigitizerEvent list) \<Rightarrow> (int \<times> real list list) list
   \<Rightarrow> error + (int \<rightharpoonup> DigitizerEvent list)" where
  "events_loop cur events_dict [] = Inr events_dict"
| "events_loop cur events_dict ((channel, ws) # rest) =
     (case channel_events cur ws of
        Inl e \<Rightarrow> Inl e
      | Inr (evs, cur1) \<Rightarrow> events_loop cur1 (events_dict(channel \<mapsto> evs)) rest)"

definition create_events_dict ::
  "RawDataContainer \<Rightarrow> error + (int \<rightharpoonup> DigitizerEvent list)" where
  "create_events_dict data =
     events_loop (cycle_init (timestamps data)) Map.empty (zip (channels data) (waveforms data))"

definition create_from_file ::
  "numpy \<Rightarrow> (int list \<Rightarrow> int list) \<Rightarrow> float_ops \<Rightarrow> tree
   \<Rightarrow> error + (int \<rightharpoonup> DigitizerEvent list)" where
  "create_from_file np set_order ops file_content =
     and_then (RawDataContainer_init np set_order file_content) (\<lambda>raw_data.
     and_then (preprocess np ops raw_data) create_events_dict)"

section \<open>Auxiliary notions for the proofs\<close>

text \<open>
  The loop of \<^verbatim>\<open>correct_timestamps\<close> on unbounded integers, where no sum wraps around,
  and the values it gives for an array of timestamps.
\<close>

definition unbounded_add_from :: "nat \<Rightarrow> int \<Rightarrow> int list \<Rightarrow> int list" where
  "unbounded_add_from reset_index d ts =
     take reset_index ts @ map (\<lambda>t. t + d) (drop reset_index ts)"

fun unbounded_loop :: "(nat \<times> nat) list \<Rightarrow> int list \<Rightarrow> int list" where
  "unbounded_loop [] ts = ts"
| "unbounded_loop ((i, reset_index) # rest) ts =
     unbounded_loop rest (unbounded_add_from reset_index (increment * (int i + 1)) ts)"

definition unbounded_correction :: "int list \<Rightarrow> int list" where
  "unbounded_correction ts = unbounded_loop (enumerate 0 (reset_indices ts)) ts"

text \<open>
  The total offset that this loop has added at position \<open>j\<close>, for the enumerated reset
  indices \<open>es\<close>.
\<close>

definition offset_at :: "(nat \<times> nat) list \<Rightarrow> nat \<Rightarrow> int" where
  "offset_at es j = (\<Sum>(i, r) \<leftarrow> es. if r \<le> j then increment * (int i + 1) else 0)"

text \<open>
  \<open>cycle_at ts j cur\<close>: \<open>cur\<close> is a state that \<^verbatim>\<open>cycle(ts)\<close> can be in after \<open>j\<close>
  draws.
\<close>

definition cycle_at :: "int list \<Rightarrow> nat \<Rightarrow> cycle \<Rightarrow> bool" where
  "cycle_at ts j cur =
     (\<exists>m \<le> length ts. m mod length ts = j mod length ts \<and>
        (cur = Filling (drop m ts) (take m ts) \<or> cur = Replaying (drop m ts) ts))"

text \<open>
  What the proofs use of the order in which a Python set is iterated: \<^verbatim>\<open>list(set(ns))\<close>
  has no duplicates and the elements of \<open>ns\<close>. \<open>ascending\<close> is such an order, used
  for the examples.
\<close>

definition set_iteration :: "(int list \<Rightarrow> int list) \<Rightarrow> bool" where
  "set_iteration set_order = (\<forall>ns. distinct (set_order ns) \<and> set (set_order ns) = set ns)"

definition ascending :: "int list \<Rightarrow> int list" where
  "ascending ns = sort (remdups ns)"

text \<open>
  NumPy 2, used for the examples.
\<close>

definition numpy2 :: numpy where
  "numpy2 = \<lparr>int_out_of_bounds = (\<lambda>dt k d ts. Inl OverflowError),
             inhomogeneous_error = Some ValueError\<rparr>"

text \<open>
  Rounding-free arithmetic, used only to run the examples.
\<close>

definition exact_ops :: float_ops where
  "exact_ops = \<lparr>fl_mean = (\<lambda>xs. sum_list xs / real (length xs)), fl_sub = (-), fl_div = (/)\<rparr>"

text \<open>
  The naming pattern of the specification, \<^verbatim>\<open>channel<N>_waveforms\<close>: the key is
  \<^verbatim>\<open>channel\<close>, then \<open>N\<close> written with at least one and at most \<open>int_max_str_digits\<close>
  decimal digits, then \<^verbatim>\<open>_waveforms\<close>. \<open>pattern_number\<close> gives \<open>N\<close> for such a key and
  \<open>None\<close> for any other.
\<close>

definition is_digit :: "char \<Rightarrow> bool" where
  "is_digit c = (digit_value c \<noteq> None)"

fun decimal :: "nat \<Rightarrow> string \<Rightarrow> nat" where
  "decimal acc [] = acc"
| "decimal acc (c # cs) = decimal (10 * acc + (of_char c - 48)) cs"

definition pattern_number :: "string \<Rightarrow> nat option" where
  "pattern_number key =
     (let n = length key; ds = take (n - 17) (drop 7 key) in
      if 17 < n \<and> n \<le> 17 + int_max_str_digits \<and> take 7 key = ''channel'' \<and>
         drop (n - 10) key = ''_waveforms'' \<and> list_all is_digit ds
      then Some (decimal 0 ds) else None)"

section \<open>Timestamp wraparound correction\<close>

lemma length_unbounded_add_from: "length (unbounded_add_from r d ts) = length ts"
  by (simp add: unbounded_add_from_def)

lemma length_unbounded_loop: "length (unbounded_loop es ts) = length ts"
  by (induction es ts rule: unbounded_loop.induct) (simp_all add: length_unbounded_add_from)

lemma nth_unbounded_add_from:
  "j < length ts \<Longrightarrow> unbounded_add_from r d ts ! j = ts ! j + (if r \<le> j then d else 0)"
  by (auto simp: unbounded_add_from_def nth_append min_def)

lemma nth_unbounded_loop:
  "j < length ts \<Longrightarrow> unbounded_loop es ts ! j = ts ! j + offset_at es j"
proof (induction es ts rule: unbounded_loop.induct)
  case (1 ts)
  then show ?case by (simp add: offset_at_def)
next
  case (2 i reset_index rest ts)
  then show ?case
    by (simp add: length_unbounded_add_from nth_unbounded_add_from offset_at_def)
qed

lemma increment_pos: "0 < increment"
  by (simp add: increment_def)

lemma offset_at_mono: "offset_at es j \<le> offset_at es (Suc j)"
proof (induction es)
  case Nil
  then show ?case by (simp add: offset_at_def)
next
  case (Cons e es)
  obtain i r where e: "e = (i, r)" by (cases e)
  have "0 \<le> increment * (int i + 1)"
    using increment_pos by simp
  with Cons show ?case
    by (simp add: offset_at_def e)
qed

lemma offset_at_jump:
  "(i, Suc j) \<in> set es \<Longrightarrow> offset_at es j + increment \<le> offset_at es (Suc j)"
proof (induction es)
  case Nil
  then show ?case by simp
next
  case (Cons e es)
  obtain i' r where e: "e = (i', r)" by (cases e)
  have step: "increment \<le> increment * (int i' + 1)"
    using increment_pos by simp
  have nonneg: "0 \<le> increment * (int i' + 1)"
    using increment_pos by simp
  show ?case
  proof (cases "e = (i, Suc j)")
    case True
    have "offset_at es j \<le> offset_at es (Suc j)" by (rule offset_at_mono)
    with True step e show ?thesis
      by (simp add: offset_at_def)
  next
    case False
    with Cons have "offset_at es j + increment \<le> offset_at es (Suc j)" by simp
    with nonneg show ?thesis
      by (simp add: offset_at_def e)
  qed
qed

lemma length_greater_mask: "length (greater_mask ts) = length ts - 1"
  by (simp add: greater_mask_def)

lemma nth_greater_mask:
  "Suc j < length ts \<Longrightarrow> greater_mask ts ! j = (ts ! j > ts ! Suc j)"
  by (simp add: greater_mask_def nth_butlast nth_tl)

lemma reset_indices_iff:
  "Suc j \<in> set (reset_indices ts) \<longleftrightarrow> Suc j < length ts \<and> ts ! j > ts ! Suc j"
  by (auto simp: reset_indices_def np_where_def length_greater_mask nth_greater_mask)

lemma reset_enumerated:
  "r \<in> set rs \<Longrightarrow> \<exists>i. (i, r) \<in> set (enumerate n rs)"
  by (induction rs arbitrary: n) auto

lemma offset_at_nonneg: "0 \<le> offset_at es j"
proof (induction es)
  case Nil
  then show ?case by (simp add: offset_at_def)
next
  case (Cons e es)
  obtain i r where e: "e = (i, r)" by (cases e)
  have "0 \<le> increment * (int i + 1)"
    using increment_pos by simp
  with Cons show ?case
    by (simp add: offset_at_def e)
qed

lemma offset_at_member:
  "(i, r) \<in> set es \<Longrightarrow> r \<le> j \<Longrightarrow> increment * (int i + 1) \<le> offset_at es j"
proof (induction es)
  case Nil
  then show ?case by simp
next
  case (Cons e es)
  have rest: "0 \<le> offset_at es j" by (rule offset_at_nonneg)
  obtain i' r' where e: "e = (i', r')" by (cases e)
  have head: "0 \<le> increment * (int i' + 1)"
    using increment_pos by simp
  show ?case
  proof (cases "e = (i, r)")
    case True
    with Cons.prems(2) rest e show ?thesis
      by (simp add: offset_at_def)
  next
    case False
    with Cons have "increment * (int i + 1) \<le> offset_at es j" by simp
    with head show ?thesis
      by (simp add: offset_at_def e)
  qed
qed

lemma reset_index_less: "r \<in> set (reset_indices ts) \<Longrightarrow> r < length ts"
  by (auto simp: reset_indices_def np_where_def length_greater_mask)

lemma enumerate_member:
  "(i, r) \<in> set (enumerate 0 rs) \<Longrightarrow> i < length rs \<and> r \<in> set rs"
  by (auto simp: in_set_enumerate_eq)

lemma unbounded_nondecreasing:
  assumes range: "\<forall>t \<in> set ts. 0 \<le> t \<and> t < 2 ^ 30"
    and i: "Suc i < length ts"
  shows "unbounded_correction ts ! i \<le> unbounded_correction ts ! Suc i"
proof -
  let ?es = "enumerate 0 (reset_indices ts)"
  have a: "unbounded_loop ?es ts ! i = ts ! i + offset_at ?es i"
    using i by (simp add: nth_unbounded_loop)
  have b: "unbounded_loop ?es ts ! Suc i = ts ! Suc i + offset_at ?es (Suc i)"
    using i by (simp add: nth_unbounded_loop)
  have lo: "0 \<le> ts ! Suc i" using range i by simp
  have hi: "ts ! i < increment" using range i by (simp add: increment_def)
  have "ts ! i + offset_at ?es i \<le> ts ! Suc i + offset_at ?es (Suc i)"
  proof (cases "ts ! i > ts ! Suc i")
    case True
    with i have "Suc i \<in> set (reset_indices ts)"
      by (simp add: reset_indices_iff)
    from reset_enumerated [OF this, of 0] obtain k where "(k, Suc i) \<in> set ?es"
      by blast
    then have "offset_at ?es i + increment \<le> offset_at ?es (Suc i)"
      by (rule offset_at_jump)
    with lo hi show ?thesis by linarith
  next
    case False
    with offset_at_mono [of ?es i] show ?thesis by linarith
  qed
  with a b show ?thesis
    by (simp add: unbounded_correction_def)
qed

lemma dtype_min_nonpos: "dtype_min dt \<le> 0"
  by (simp add: dtype_min_def)

lemma dtype_span: "dtype_max dt - dtype_min dt + 1 = 2 ^ dtype_bits dt"
  by (cases dt) (simp_all add: dtype_min_def dtype_max_def)

lemma wrap_in_range:
  assumes "in_range dt x"
  shows "wrap dt x = x"
proof -
  from assms have "0 \<le> x - dtype_min dt" and "x - dtype_min dt < dtype_max dt - dtype_min dt + 1"
    by (simp_all add: in_range_def)
  then have "(x - dtype_min dt) mod 2 ^ dtype_bits dt = x - dtype_min dt"
    by (simp add: dtype_span)
  then show ?thesis by (simp add: wrap_def)
qed

lemma iadd_from_exact:
  assumes d: "in_range dt d"
    and vals: "\<forall>x \<in> set (unbounded_add_from r d ts). in_range dt x"
  shows "iadd_from np dt r d ts = Inr (unbounded_add_from r d ts)"
proof -
  have "map (\<lambda>t. wrap dt (t + d)) (drop r ts) = map (\<lambda>t. t + d) (drop r ts)"
  proof (rule map_cong [OF refl])
    fix t assume "t \<in> set (drop r ts)"
    then have "t + d \<in> set (unbounded_add_from r d ts)"
      by (simp add: unbounded_add_from_def)
    with vals have "in_range dt (t + d)" by blast
    then show "wrap dt (t + d) = t + d" by (rule wrap_in_range)
  qed
  with d show ?thesis
    by (simp add: iadd_from_def unbounded_add_from_def)
qed

lemma increment_loop_exact:
  assumes weights: "\<forall>e \<in> set es. in_range dt (increment * (int (fst e) + 1))"
    and lo: "\<forall>x \<in> set ts. dtype_min dt \<le> x"
    and hi: "\<forall>x \<in> set (unbounded_loop es ts). x \<le> dtype_max dt"
  shows "increment_loop np dt es ts = Inr (unbounded_loop es ts)"
  using assms
proof (induction es arbitrary: ts)
  case Nil
  then show ?case by simp
next
  case (Cons e es)
  obtain i r where e: "e = (i, r)" by (cases e)
  let ?d = "increment * (int i + 1)"
  let ?ts1 = "unbounded_add_from r ?d ts"
  have d0: "0 \<le> ?d" using increment_pos by simp
  from Cons.prems(1) e have d: "in_range dt ?d" by simp
  have len: "length ?ts1 = length ts" by (rule length_unbounded_add_from)
  have lo1: "\<forall>x \<in> set ?ts1. dtype_min dt \<le> x"
  proof
    fix x assume "x \<in> set ?ts1"
    then obtain j where j: "j < length ts" and x: "x = ?ts1 ! j"
      using len by (metis in_set_conv_nth)
    from j Cons.prems(2) have "dtype_min dt \<le> ts ! j" by simp
    with d0 j x show "dtype_min dt \<le> x"
      by (simp add: nth_unbounded_add_from)
  qed
  have hi1: "\<forall>x \<in> set ?ts1. x \<le> dtype_max dt"
  proof
    fix x assume "x \<in> set ?ts1"
    then obtain j where j: "j < length ?ts1" and x: "x = ?ts1 ! j"
      by (metis in_set_conv_nth)
    have "unbounded_loop es ?ts1 ! j = ?ts1 ! j + offset_at es j"
      using j by (rule nth_unbounded_loop)
    with offset_at_nonneg [of es j] have "?ts1 ! j \<le> unbounded_loop es ?ts1 ! j"
      by simp
    moreover have "unbounded_loop es ?ts1 ! j \<in> set (unbounded_loop (e # es) ts)"
      using j e by (simp add: length_unbounded_loop)
    ultimately show "x \<le> dtype_max dt"
      using Cons.prems(3) x by fastforce
  qed
  from lo1 hi1 have "\<forall>x \<in> set ?ts1. in_range dt x"
    by (simp add: in_range_def)
  from iadd_from_exact [OF d this] have step: "iadd_from np dt r ?d ts = Inr ?ts1" .
  from Cons.prems(1) have w: "\<forall>e \<in> set es. in_range dt (increment * (int (fst e) + 1))"
    by simp
  from Cons.prems(3) e have h: "\<forall>x \<in> set (unbounded_loop es ?ts1). x \<le> dtype_max dt"
    by simp
  from Cons.IH [OF w lo1 h] step e show ?case by simp
qed

lemma increment_loop_returns:
  "\<forall>e \<in> set es. in_range dt (increment * (int (fst e) + 1)) \<Longrightarrow>
   \<exists>ts1. increment_loop np dt es ts = Inr ts1"
proof (induction es arbitrary: ts)
  case Nil
  then show ?case by simp
next
  case (Cons e es)
  obtain i r where e: "e = (i, r)" by (cases e)
  from Cons.prems e have d: "in_range dt (increment * (int i + 1))" by simp
  from Cons.prems have "\<forall>e \<in> set es. in_range dt (increment * (int (fst e) + 1))"
    by simp
  from Cons.IH [OF this] d e show ?case
    by (simp add: iadd_from_def)
qed


text \<open>
  Claim C1. For the timestamps \<open>[3, 1, 0, 5]\<close> the resets are found at the indices 1
  and 2, as the claim says. The claim then expects a total offset of \<open>k * 2^30\<close> from
  the \<open>k\<close>-th reset on, that is \<open>[3, 1 + 2^30, 0 + 2 * 2^30, 5 + 2 * 2^30]\<close>, which is
  also what the comment in the source announces (one clock cycle per reset). The loop
  adds \<open>(i + 1) * 2^30\<close> to the whole tail at the \<open>i\<close>-th reset, on top of what the
  earlier resets added there, so the elements from the second reset on carry
  \<open>3 * 2^30\<close>: in a 64-bit array, and in an unsigned 32-bit array, the code returns
  \<open>[3, 1 + 2^30, 0 + 3 * 2^30, 5 + 3 * 2^30]\<close>.
\<close>

theorem correct_timestamps_two_resets:
  "reset_indices [3, 1, 0, 5] = [1, 2] \<and>
   correct_timestamps np
     \<lparr>channels = [], waveforms = [], timestamps = [3, 1, 0, 5], timestamps_dtype = int64\<rparr> =
     Inr \<lparr>channels = [], waveforms = [],
          timestamps = [3, 1 + 2 ^ 30, 0 + 3 * 2 ^ 30, 5 + 3 * 2 ^ 30], timestamps_dtype = int64\<rparr> \<and>
   correct_timestamps np
     \<lparr>channels = [], waveforms = [], timestamps = [3, 1, 0, 5], timestamps_dtype = uint32\<rparr> =
     Inr \<lparr>channels = [], waveforms = [],
          timestamps = [3, 1 + 2 ^ 30, 0 + 3 * 2 ^ 30, 5 + 3 * 2 ^ 30], timestamps_dtype = uint32\<rparr> \<and>
   correct_timestamps np
     \<lparr>channels = [], waveforms = [], timestamps = [3, 1, 0, 5], timestamps_dtype = int64\<rparr> \<noteq>
     Inr \<lparr>channels = [], waveforms = [],
          timestamps = [3, 1 + 2 ^ 30, 0 + 2 * 2 ^ 30, 5 + 2 * 2 ^ 30], timestamps_dtype = int64\<rparr>"
  by (simp add: correct_timestamps_def reset_indices_def np_where_def greater_mask_def upt_rec
      enumerate_eq_zip iadd_from_def increment_def and_then_def in_range_def wrap_def
      dtype_min_def dtype_max_def)

text \<open>
  Claim C2. The additions are made in the integer type of the array, so the claim
  fails when a sum does not fit: in an unsigned 32-bit array \<open>[3, 2, 1, 0]\<close> becomes
  \<open>[3, 1073741826, 3221225473, 2147483648]\<close>, which decreases at the last pair. What
  holds: when every timestamp is at least 0 and below \<open>2^30\<close> and every value that the
  correction gives on unbounded integers is at most the largest value of the array's
  type (no addition overflows), the correction returns exactly these values, the
  array keeps its length, and it is non-decreasing on every consecutive pair.
\<close>

theorem correct_timestamps_nondecreasing:
  assumes range: "\<forall>t \<in> set (timestamps c). 0 \<le> t \<and> t < 2 ^ 30"
    and fits: "\<forall>x \<in> set (unbounded_correction (timestamps c)). x \<le> dtype_max (timestamps_dtype c)"
  shows "\<exists>c1. correct_timestamps np c = Inr c1 \<and>
           timestamps c1 = unbounded_correction (timestamps c) \<and>
           length (timestamps c1) = length (timestamps c) \<and>
           (\<forall>i. Suc i < length (timestamps c1) \<longrightarrow> timestamps c1 ! i \<le> timestamps c1 ! Suc i)"
proof -
  let ?ts = "timestamps c"
  let ?dt = "timestamps_dtype c"
  let ?es = "enumerate 0 (reset_indices ?ts)"
  let ?out = "unbounded_correction ?ts"
  have len: "length ?out = length ?ts"
    by (simp add: unbounded_correction_def length_unbounded_loop)
  have lo: "\<forall>x \<in> set ?ts. dtype_min ?dt \<le> x"
  proof
    fix x assume "x \<in> set ?ts"
    with range have "0 \<le> x" by simp
    with dtype_min_nonpos [of ?dt] show "dtype_min ?dt \<le> x" by linarith
  qed
  have weights: "\<forall>e \<in> set ?es. in_range ?dt (increment * (int (fst e) + 1))"
  proof
    fix e assume e: "e \<in> set ?es"
    obtain i r where ir: "e = (i, r)" by (cases e)
    with e enumerate_member [of i r "reset_indices ?ts"] have "r \<in> set (reset_indices ?ts)"
      by simp
    then have r: "r < length ?ts" by (rule reset_index_less)
    from e ir have "increment * (int i + 1) \<le> offset_at ?es r"
      by (simp add: offset_at_member)
    moreover have "0 \<le> ?ts ! r" using range r by simp
    moreover have "?out ! r = ?ts ! r + offset_at ?es r"
      using r by (simp add: unbounded_correction_def nth_unbounded_loop)
    moreover have "?out ! r \<le> dtype_max ?dt"
      using fits r len by simp
    ultimately have "increment * (int i + 1) \<le> dtype_max ?dt" by linarith
    moreover have "0 \<le> increment * (int i + 1)" using increment_pos by simp
    ultimately show "in_range ?dt (increment * (int (fst e) + 1))"
      using dtype_min_nonpos [of ?dt] ir by (simp add: in_range_def)
  qed
  from fits have hi: "\<forall>x \<in> set (unbounded_loop ?es ?ts). x \<le> dtype_max ?dt"
    by (simp add: unbounded_correction_def)
  from increment_loop_exact [OF weights lo hi]
  have "increment_loop np ?dt ?es ?ts = Inr ?out"
    by (simp add: unbounded_correction_def)
  then have ret: "correct_timestamps np c = Inr (c\<lparr>timestamps := ?out\<rparr>)"
    by (simp add: correct_timestamps_def and_then_def)
  have "?out ! i \<le> ?out ! Suc i" if "Suc i < length ?out" for i
    using range that len by (simp add: unbounded_nondecreasing)
  with ret len show ?thesis by simp
qed

theorem correct_timestamps_nondecreasing_witness:
  "\<exists>c1. correct_timestamps numpy2
          \<lparr>channels = [], waveforms = [], timestamps = [3, 1, 0, 5], timestamps_dtype = uint32\<rparr>
          = Inr c1 \<and>
        timestamps c1 = [3, 1073741825, 3221225472, 3221225477] \<and>
        timestamps c1 ! 1 \<le> timestamps c1 ! 2"
proof -
  let ?X = "\<lparr>channels = [], waveforms = [], timestamps = [3, 1, 0, 5], timestamps_dtype = uint32\<rparr>"
  have out: "unbounded_correction (timestamps ?X) = [3, 1073741825, 3221225472, 3221225477]"
    by (simp add: unbounded_correction_def reset_indices_def np_where_def greater_mask_def
        upt_rec enumerate_eq_zip unbounded_add_from_def increment_def)
  have range: "\<forall>t \<in> set (timestamps ?X). 0 \<le> t \<and> t < 2 ^ 30"
    by simp
  have fits: "\<forall>x \<in> set (unbounded_correction (timestamps ?X)). x \<le> dtype_max (timestamps_dtype ?X)"
    unfolding out by (simp add: dtype_max_def)
  from correct_timestamps_nondecreasing [OF range fits, of numpy2] obtain c1 where
    "correct_timestamps numpy2 ?X = Inr c1"
    "timestamps c1 = unbounded_correction (timestamps ?X)"
    by blast
  with out show ?thesis by simp
qed

theorem correct_timestamps_nondecreasing_counterexample:
  "correct_timestamps numpy2
     \<lparr>channels = [], waveforms = [], timestamps = [3, 2, 1, 0], timestamps_dtype = uint32\<rparr> =
     Inr \<lparr>channels = [], waveforms = [],
          timestamps = [3, 1073741826, 3221225473, 2147483648], timestamps_dtype = uint32\<rparr> \<and>
   \<not> [3, 1073741826, 3221225473, 2147483648 :: int] ! 2
       \<le> [3, 1073741826, 3221225473, 2147483648] ! 3"
  by (simp add: correct_timestamps_def reset_indices_def np_where_def greater_mask_def upt_rec
      enumerate_eq_zip iadd_from_def increment_def and_then_def in_range_def wrap_def
      dtype_min_def dtype_max_def numpy2_def)


section \<open>Events and the shared cyclic timestamp cursor\<close>

lemma np_amin_Min: "w \<noteq> [] \<Longrightarrow> np_amin w = Inr (Min (set w))"
proof (cases w)
  case Nil
  assume "w \<noteq> []"
  with Nil show ?thesis by simp
next
  case (Cons x rest)
  have "fold min rest x = Min (set (x # rest))"
    by (rule Min.set_eq_fold [symmetric])
  with Cons show ?thesis by (simp add: np_amin_def)
qed

lemma DigitizerEvent_init_nonempty:
  "w \<noteq> [] \<Longrightarrow>
   DigitizerEvent_init w t = Inr \<lparr>waveform = w, timestamp = t, amplitude = - Min (set w)\<rparr>"
  by (simp add: DigitizerEvent_init_def np_amin_Min and_then_def)

lemma DigitizerEvent_init_Inr:
  "DigitizerEvent_init w t = Inr ev \<Longrightarrow> waveform ev = w \<and> timestamp ev = t \<and> w \<noteq> []"
  by (cases w) (auto simp: DigitizerEvent_init_def np_amin_def and_then_def)

lemma cycle_at_init: "cycle_at ts 0 (cycle_init ts)"
  unfolding cycle_at_def cycle_init_def
  by (rule exI [of _ 0]) simp

lemma cycle_next_at:
  assumes ne: "ts \<noteq> []" and at: "cycle_at ts j cur"
  shows "\<exists>cur1. cycle_next cur = Inr (ts ! (j mod length ts), cur1) \<and> cycle_at ts (Suc j) cur1"
proof -
  let ?n = "length ts"
  from at obtain m where m: "m \<le> ?n" "m mod ?n = j mod ?n"
    and cur: "cur = Filling (drop m ts) (take m ts) \<or> cur = Replaying (drop m ts) ts"
    unfolding cycle_at_def by blast
  have npos: "0 < ?n" using ne by simp
  show ?thesis
  proof (cases "m < ?n")
    case True
    then have jm: "j mod ?n = m" using m by simp
    have dr: "drop m ts = ts ! m # drop (Suc m) ts"
      using True by (simp add: Cons_nth_drop_Suc)
    have tk: "take m ts @ [ts ! m] = take (Suc m) ts"
      using True by (simp add: take_Suc_conv_app_nth)
    have sm: "Suc m mod ?n = Suc j mod ?n"
      using jm by (metis mod_Suc_eq)
    have le: "Suc m \<le> ?n" using True by simp
    from cur show ?thesis
    proof
      assume "cur = Filling (drop m ts) (take m ts)"
      then have "cycle_next cur = Inr (ts ! m, Filling (drop (Suc m) ts) (take (Suc m) ts))"
        using dr tk by simp
      moreover have "cycle_at ts (Suc j) (Filling (drop (Suc m) ts) (take (Suc m) ts))"
        unfolding cycle_at_def using le sm by blast
      ultimately show ?thesis using jm by simp
    next
      assume "cur = Replaying (drop m ts) ts"
      then have "cycle_next cur = Inr (ts ! m, Replaying (drop (Suc m) ts) ts)"
        using dr by simp
      moreover have "cycle_at ts (Suc j) (Replaying (drop (Suc m) ts) ts)"
        unfolding cycle_at_def using le sm by blast
      ultimately show ?thesis using jm by simp
    qed
  next
    case False
    with m have mn: "m = ?n" by simp
    then have j0: "j mod ?n = 0" using m by simp
    obtain x rest where ts: "ts = x # rest" using ne by (cases ts) auto
    have nx: "cycle_next cur = Inr (x, Replaying rest ts)"
      using cur mn ts by auto
    have "1 mod ?n = Suc j mod ?n"
      using j0 by (metis One_nat_def mod_Suc_eq)
    moreover have "1 \<le> ?n" using ne by (cases ts) simp_all
    ultimately have "\<exists>m \<le> ?n. m mod ?n = Suc j mod ?n \<and>
        (Replaying (drop 1 ts) ts = Filling (drop m ts) (take m ts) \<or>
         Replaying (drop 1 ts) ts = Replaying (drop m ts) ts)"
      by blast
    then have "cycle_at ts (Suc j) (Replaying (drop 1 ts) ts)"
      unfolding cycle_at_def .
    then have "cycle_at ts (Suc j) (Replaying rest ts)"
      using ts by simp
    with nx j0 ts show ?thesis by simp
  qed
qed

lemma channel_events_at:
  assumes ne: "ts \<noteq> []"
  shows "cycle_at ts j cur \<Longrightarrow> channel_events cur ws = Inr (evs, cur1) \<Longrightarrow>
     cycle_at ts (j + length ws) cur1 \<and> map waveform evs = ws \<and>
     map timestamp evs = map (\<lambda>k. ts ! (k mod length ts)) [j..<j + length ws]"
proof (induction ws arbitrary: j cur evs)
  case Nil
  then show ?case by simp
next
  case (Cons w ws)
  from cycle_next_at [OF ne Cons.prems(1)] obtain c1 where
    nx: "cycle_next cur = Inr (ts ! (j mod length ts), c1)" and at1: "cycle_at ts (Suc j) c1"
    by blast
  from Cons.prems(2) nx obtain ev evs' where
    ev: "DigitizerEvent_init w (ts ! (j mod length ts)) = Inr ev"
    and rest: "channel_events c1 ws = Inr (evs', cur1)"
    and evs: "evs = ev # evs'"
    by (auto split: sum.splits prod.splits)
  from Cons.IH [OF at1 rest] have ih:
    "cycle_at ts (Suc j + length ws) cur1" "map waveform evs' = ws"
    "map timestamp evs' = map (\<lambda>k. ts ! (k mod length ts)) [Suc j..<Suc j + length ws]"
    by simp_all
  from DigitizerEvent_init_Inr [OF ev] have e: "waveform ev = w" "timestamp ev = ts ! (j mod length ts)"
    by simp_all
  have "[j..<j + length (w # ws)] = j # [Suc j..<Suc j + length ws]"
    by (simp add: upt_rec)
  with ih e evs show ?case by simp
qed

lemma channel_events_returns:
  assumes ne: "ts \<noteq> []"
  shows "cycle_at ts j cur \<Longrightarrow> \<forall>w \<in> set ws. w \<noteq> [] \<Longrightarrow>
     \<exists>evs cur1. channel_events cur ws = Inr (evs, cur1)"
proof (induction ws arbitrary: j cur)
  case Nil
  then show ?case by simp
next
  case (Cons w ws)
  from cycle_next_at [OF ne Cons.prems(1)] obtain c1 where
    nx: "cycle_next cur = Inr (ts ! (j mod length ts), c1)" and at1: "cycle_at ts (Suc j) c1"
    by blast
  from Cons.prems(2) have w: "w \<noteq> []" and ws: "\<forall>w \<in> set ws. w \<noteq> []" by simp_all
  from Cons.IH [OF at1 ws] obtain evs cur1 where "channel_events c1 ws = Inr (evs, cur1)"
    by blast
  with nx w show ?case
    by (simp add: DigitizerEvent_init_nonempty)
qed


lemma channel_events_waveforms:
  "channel_events cur ws = Inr (evs, cur1) \<Longrightarrow> map waveform evs = ws"
proof (induction ws arbitrary: cur evs)
  case Nil
  then show ?case by simp
next
  case (Cons w ws)
  from Cons.prems obtain t c1 ev evs' where
    ev: "DigitizerEvent_init w t = Inr ev"
    and rest: "channel_events c1 ws = Inr (evs', cur1)"
    and evs: "evs = ev # evs'"
    by (auto split: sum.splits prod.splits)
  from Cons.IH [OF rest] DigitizerEvent_init_Inr [OF ev] evs show ?case by simp
qed

lemma events_loop_frame:
  "events_loop cur d zs = Inr d1 \<Longrightarrow> c \<notin> fst ` set zs \<Longrightarrow> d1 c = d c"
proof (induction zs arbitrary: cur d)
  case Nil
  then show ?case by simp
next
  case (Cons z zs)
  obtain c' ws where z: "z = (c', ws)" by (cases z)
  from Cons.prems(1) z obtain evs c1 where
    "events_loop c1 (d(c' \<mapsto> evs)) zs = Inr d1"
    by (auto split: sum.splits prod.splits)
  from Cons.IH [OF this] Cons.prems(2) z show ?case by auto
qed

lemma events_loop_dom:
  "events_loop cur d zs = Inr d1 \<Longrightarrow> dom d1 = dom d \<union> fst ` set zs"
proof (induction zs arbitrary: cur d)
  case Nil
  then show ?case by simp
next
  case (Cons z zs)
  obtain c' ws where z: "z = (c', ws)" by (cases z)
  from Cons.prems(1) z obtain evs c1 where
    "events_loop c1 (d(c' \<mapsto> evs)) zs = Inr d1"
    by (auto split: sum.splits prod.splits)
  from Cons.IH [OF this] z show ?case by auto
qed

lemma events_loop_waveforms:
  "events_loop cur d zs = Inr d1 \<Longrightarrow> distinct (map fst zs) \<Longrightarrow> k < length zs \<Longrightarrow>
   \<exists>evs. d1 (fst (zs ! k)) = Some evs \<and> map waveform evs = snd (zs ! k)"
proof (induction zs arbitrary: cur d k)
  case Nil
  then show ?case by simp
next
  case (Cons z zs)
  obtain c ws where z: "z = (c, ws)" by (cases z)
  from Cons.prems(1) z obtain evs c1 where
    ce: "channel_events cur ws = Inr (evs, c1)"
    and rest: "events_loop c1 (d(c \<mapsto> evs)) zs = Inr d1"
    by (auto split: sum.splits prod.splits)
  from Cons.prems(2) z have notin: "c \<notin> fst ` set zs" and dist: "distinct (map fst zs)"
    by simp_all
  show ?case
  proof (cases k)
    case 0
    from events_loop_frame [OF rest notin] have "d1 c = Some evs" by simp
    with channel_events_waveforms [OF ce] 0 z show ?thesis by simp
  next
    case (Suc k')
    with Cons.prems(3) have "k' < length zs" by simp
    from Cons.IH [OF rest dist this] Suc show ?thesis by simp
  qed
qed

lemma events_loop_timestamps:
  assumes ne: "ts \<noteq> []"
  shows "cycle_at ts j cur \<Longrightarrow> events_loop cur d zs = Inr d1 \<Longrightarrow> distinct (map fst zs) \<Longrightarrow>
     map timestamp (concat (map (\<lambda>c. the (d1 c)) (map fst zs))) =
     map (\<lambda>k. ts ! (k mod length ts)) [j..<j + length (concat (map snd zs))]"
proof (induction zs arbitrary: j cur d)
  case Nil
  then show ?case by simp
next
  case (Cons z zs)
  obtain c ws where z: "z = (c, ws)" by (cases z)
  from Cons.prems(2) z obtain evs c1 where
    ce: "channel_events cur ws = Inr (evs, c1)"
    and rest: "events_loop c1 (d(c \<mapsto> evs)) zs = Inr d1"
    by (auto split: sum.splits prod.splits)
  from Cons.prems(3) z have notin: "c \<notin> fst ` set zs" and dist: "distinct (map fst zs)"
    by simp_all
  from channel_events_at [OF ne Cons.prems(1) ce] have
    at1: "cycle_at ts (j + length ws) c1"
    and tevs: "map timestamp evs = map (\<lambda>k. ts ! (k mod length ts)) [j..<j + length ws]"
    by simp_all
  from events_loop_frame [OF rest notin] have here: "d1 c = Some evs" by simp
  let ?m = "length (concat (map snd zs))"
  from Cons.IH [OF at1 rest dist] have ih:
    "map timestamp (concat (map (\<lambda>c. the (d1 c)) (map fst zs))) =
     map (\<lambda>k. ts ! (k mod length ts)) [j + length ws..<j + length ws + ?m]" .
  have len: "j + length (concat (map snd (z # zs))) = j + length ws + ?m"
    using z by simp
  have split: "[j..<j + length ws + ?m] = [j..<j + length ws] @ [j + length ws..<j + length ws + ?m]"
    by (rule upt_add_eq_append) simp
  show ?case
    unfolding len split using ih tevs here z by simp
qed

lemma events_loop_returns:
  assumes ne: "ts \<noteq> []"
  shows "cycle_at ts j cur \<Longrightarrow> \<forall>ws \<in> snd ` set zs. \<forall>w \<in> set ws. w \<noteq> [] \<Longrightarrow>
     \<exists>d1. events_loop cur d zs = Inr d1"
proof (induction zs arbitrary: j cur d)
  case Nil
  then show ?case by simp
next
  case (Cons z zs)
  obtain c ws where z: "z = (c, ws)" by (cases z)
  from Cons.prems(2) z have ws: "\<forall>w \<in> set ws. w \<noteq> []"
    and rest: "\<forall>ws \<in> snd ` set zs. \<forall>w \<in> set ws. w \<noteq> []" by simp_all
  from channel_events_returns [OF ne Cons.prems(1) ws] obtain evs c1 where
    ce: "channel_events cur ws = Inr (evs, c1)" by blast
  from channel_events_at [OF ne Cons.prems(1) ce] have at1: "cycle_at ts (j + length ws) c1"
    by simp
  from Cons.IH [OF at1 rest, of "d(c \<mapsto> evs)"] obtain d1 where
    "events_loop c1 (d(c \<mapsto> evs)) zs = Inr d1" by blast
  with ce z have "events_loop cur d (z # zs) = Inr d1" by simp
  then show ?case by blast
qed

lemma channel_events_empty_cycle:
  "channel_events (Filling [] []) ws =
     (if ws = [] then Inr ([], Filling [] []) else Inl StopIteration)"
  by (cases ws) simp_all

lemma events_loop_empty_cycle:
  "\<exists>ws \<in> snd ` set zs. ws \<noteq> [] \<Longrightarrow> events_loop (Filling [] []) d zs = Inl StopIteration"
proof (induction zs arbitrary: d)
  case Nil
  then show ?case by simp
next
  case (Cons z zs)
  obtain c ws where z: "z = (c, ws)" by (cases z)
  show ?case
  proof (cases "ws = []")
    case True
    with Cons.prems z have "\<exists>ws \<in> snd ` set zs. ws \<noteq> []" by auto
    from Cons.IH [OF this] True z show ?thesis
      by (simp add: channel_events_empty_cycle)
  next
    case False
    with z show ?thesis by (simp add: channel_events_empty_cycle)
  qed
qed

text \<open>
  Claim C3. Let the container have a non-empty timestamp array, distinct channels and
  one waveform matrix per channel. When no waveform is empty, the event dictionary is
  built. Whenever it is built, the timestamps of the events, read channel by channel
  in the order of \<open>channels\<close> and inside a channel in capture order, are
  \<open>timestamps[j mod len(timestamps)]\<close> for \<open>j = 0, 1, 2, ...\<close>: one shared cyclic
  cursor. One channel with three waveforms and the timestamps \<open>[100, 200]\<close> gives
  \<open>[100, 200, 100]\<close>.
\<close>

theorem create_events_dict_cyclic_timestamps:
  assumes ne: "timestamps data \<noteq> []"
    and dist: "distinct (channels data)"
    and len: "length (channels data) = length (waveforms data)"
  shows "((\<forall>ws \<in> set (waveforms data). \<forall>w \<in> set ws. w \<noteq> []) \<longrightarrow>
            (\<exists>d. create_events_dict data = Inr d)) \<and>
         (\<forall>d. create_events_dict data = Inr d \<longrightarrow>
            map timestamp (concat (map (\<lambda>c. the (d c)) (channels data))) =
            map (\<lambda>j. timestamps data ! (j mod length (timestamps data)))
              [0..<length (concat (waveforms data))])"
proof -
  let ?zs = "zip (channels data) (waveforms data)"
  have zf: "map fst ?zs = channels data" and zs: "map snd ?zs = waveforms data"
    using len by simp_all
  have dz: "distinct (map fst ?zs)"
    unfolding zf by (rule dist)
  have at: "cycle_at (timestamps data) 0 (cycle_init (timestamps data))"
    by (rule cycle_at_init)
  have returns: "\<exists>d. create_events_dict data = Inr d"
    if full: "\<forall>ws \<in> set (waveforms data). \<forall>w \<in> set ws. w \<noteq> []"
  proof -
    have "snd ` set ?zs = set (map snd ?zs)" by simp
    then have "snd ` set ?zs = set (waveforms data)"
      unfolding zs .
    with full have "\<forall>ws \<in> snd ` set ?zs. \<forall>w \<in> set ws. w \<noteq> []" by simp
    from events_loop_returns [OF ne at this, of Map.empty] show ?thesis
      unfolding create_events_dict_def .
  qed
  have stamps: "map timestamp (concat (map (\<lambda>c. the (d c)) (channels data))) =
            map (\<lambda>j. timestamps data ! (j mod length (timestamps data)))
              [0..<length (concat (waveforms data))]"
    if ret: "create_events_dict data = Inr d" for d
  proof -
    from ret have "events_loop (cycle_init (timestamps data)) Map.empty ?zs = Inr d"
      unfolding create_events_dict_def .
    from events_loop_timestamps [OF ne at this dz]
    have "map timestamp (concat (map (\<lambda>c. the (d c)) (map fst ?zs))) =
          map (\<lambda>k. timestamps data ! (k mod length (timestamps data)))
            [0..<0 + length (concat (map snd ?zs))]" .
    then show ?thesis
      unfolding zf zs by simp
  qed
  from returns stamps show ?thesis by blast
qed

theorem create_events_dict_cyclic_timestamps_witness:
  "\<exists>d. create_events_dict
          \<lparr>channels = [0], waveforms = [[[1], [2], [3]]], timestamps = [100, 200], timestamps_dtype = int64\<rparr> = Inr d \<and>
        map timestamp (the (d 0)) = [100, 200, 100]"
proof -
  let ?X = "\<lparr>channels = [0], waveforms = [[[1], [2], [3]]], timestamps = [100, 200], timestamps_dtype = int64\<rparr>"
  have pre: "timestamps ?X \<noteq> []" "distinct (channels ?X)"
    "length (channels ?X) = length (waveforms ?X)"
    by simp_all
  note T = create_events_dict_cyclic_timestamps [OF pre]
  have full: "\<forall>ws \<in> set (waveforms ?X). \<forall>w \<in> set ws. w \<noteq> []"
    by simp
  from T [THEN conjunct1, THEN mp, OF full]
  obtain d where d: "create_events_dict ?X = Inr d" ..
  from T [THEN conjunct2, THEN spec, THEN mp, OF d]
  have eq: "map timestamp (concat (map (\<lambda>c. the (d c)) (channels ?X))) =
      map (\<lambda>j. timestamps ?X ! (j mod length (timestamps ?X)))
        [0..<length (concat (waveforms ?X))]" .
  have idx: "[0..<length (concat (waveforms ?X))] = [0, 1, 2]"
    by (simp add: upt_rec)
  have two: "length (timestamps ?X) = 2"
    by simp
  have "map timestamp (the (d 0)) = [100, 200, 100]"
    using eq unfolding idx two by simp
  with d show ?thesis by (intro exI conjI)
qed

text \<open>
  Claim C5. Let the container have distinct channels and one waveform matrix per
  channel. With a non-empty timestamp array and no empty waveform the event dictionary
  is built. Whenever it is built, its keys are exactly the channels, and the list
  stored for the \<open>k\<close>-th channel has as many events as that channel has waveforms,
  the \<open>i\<close>-th event holding the \<open>i\<close>-th waveform.
\<close>

theorem create_events_dict_per_channel:
  assumes dist: "distinct (channels data)"
    and len: "length (channels data) = length (waveforms data)"
  shows "((timestamps data \<noteq> [] \<and> (\<forall>ws \<in> set (waveforms data). \<forall>w \<in> set ws. w \<noteq> [])) \<longrightarrow>
            (\<exists>d. create_events_dict data = Inr d)) \<and>
         (\<forall>d. create_events_dict data = Inr d \<longrightarrow>
            dom d = set (channels data) \<and>
            (\<forall>k < length (channels data). \<exists>evs.
               d (channels data ! k) = Some evs \<and>
               length evs = length (waveforms data ! k) \<and>
               (\<forall>i < length evs. waveform (evs ! i) = waveforms data ! k ! i)))"
proof -
  let ?zs = "zip (channels data) (waveforms data)"
  have zf: "map fst ?zs = channels data" and zs: "map snd ?zs = waveforms data"
    using len by simp_all
  have dz: "distinct (map fst ?zs)"
    unfolding zf by (rule dist)
  have returns: "\<exists>d. create_events_dict data = Inr d"
    if ne: "timestamps data \<noteq> []"
      and full: "\<forall>ws \<in> set (waveforms data). \<forall>w \<in> set ws. w \<noteq> []"
  proof -
    have "snd ` set ?zs = set (map snd ?zs)" by simp
    then have "snd ` set ?zs = set (waveforms data)"
      unfolding zs .
    with full have "\<forall>ws \<in> snd ` set ?zs. \<forall>w \<in> set ws. w \<noteq> []" by simp
    from events_loop_returns [OF ne cycle_at_init this, of Map.empty] show ?thesis
      unfolding create_events_dict_def .
  qed
  have shape: "dom d = set (channels data) \<and>
            (\<forall>k < length (channels data). \<exists>evs.
               d (channels data ! k) = Some evs \<and>
               length evs = length (waveforms data ! k) \<and>
               (\<forall>i < length evs. waveform (evs ! i) = waveforms data ! k ! i))"
    if ret: "create_events_dict data = Inr d" for d
  proof -
    from ret have loop: "events_loop (cycle_init (timestamps data)) Map.empty ?zs = Inr d"
      unfolding create_events_dict_def .
    have "fst ` set ?zs = set (map fst ?zs)" by simp
    then have "fst ` set ?zs = set (channels data)"
      unfolding zf .
    with events_loop_dom [OF loop] have keys: "dom d = set (channels data)"
      by simp
    have "\<exists>evs. d (channels data ! k) = Some evs \<and>
               length evs = length (waveforms data ! k) \<and>
               (\<forall>i < length evs. waveform (evs ! i) = waveforms data ! k ! i)"
      if k: "k < length (channels data)" for k
    proof -
      from k len have kz: "k < length ?zs" by simp
      from events_loop_waveforms [OF loop dz kz] obtain evs where
        there: "d (fst (?zs ! k)) = Some evs" and wf: "map waveform evs = snd (?zs ! k)"
        by blast
      from k len have at: "?zs ! k = (channels data ! k, waveforms data ! k)"
        by simp
      from wf at have wf': "map waveform evs = waveforms data ! k" by simp
      then have "length evs = length (waveforms data ! k)"
        by (metis length_map)
      moreover have "waveform (evs ! i) = waveforms data ! k ! i" if "i < length evs" for i
        using wf' that by (metis nth_map)
      ultimately show ?thesis using there at by simp
    qed
    with keys show ?thesis by blast
  qed
  from returns shape show ?thesis by blast
qed

theorem create_events_dict_per_channel_witness:
  "\<exists>d. create_events_dict
          \<lparr>channels = [0, 1], waveforms = [[[1], [2]], [[3]]], timestamps = [100], timestamps_dtype = int64\<rparr> = Inr d \<and>
        dom d = {0, 1} \<and>
        (\<exists>evs. d 1 = Some evs \<and> length evs = 1 \<and> waveform (evs ! 0) = [3])"
proof -
  let ?X = "\<lparr>channels = [0, 1], waveforms = [[[1], [2]], [[3]]], timestamps = [100], timestamps_dtype = int64\<rparr>"
  have pre: "distinct (channels ?X)" "length (channels ?X) = length (waveforms ?X)"
    by simp_all
  note T = create_events_dict_per_channel [OF pre]
  have full: "timestamps ?X \<noteq> [] \<and> (\<forall>ws \<in> set (waveforms ?X). \<forall>w \<in> set ws. w \<noteq> [])"
    by simp
  from T [THEN conjunct1, THEN mp, OF full]
  obtain d where d: "create_events_dict ?X = Inr d" ..
  note S = T [THEN conjunct2, THEN spec, THEN mp, OF d]
  from S have keys: "dom d = {0, 1}" by simp
  have "1 < length (channels ?X)" by simp
  with S obtain evs where
    "d (channels ?X ! 1) = Some evs" "length evs = length (waveforms ?X ! 1)"
    "\<forall>i < length evs. waveform (evs ! i) = waveforms ?X ! 1 ! i"
    by blast
  then have "d 1 = Some evs \<and> length evs = 1 \<and> waveform (evs ! 0) = [3]"
    by simp
  with d keys show ?thesis by blast
qed

text \<open>
  Claim C6. For a non-empty waveform the constructor returns an event that holds the
  waveform and the timestamp it was given, with the amplitude field already set to
  \<open>-1\<close> times the minimum sample; the amplitude is not negative when that minimum
  is at most 0.
\<close>

theorem DigitizerEvent_amplitude:
  assumes "w \<noteq> []"
  shows "\<exists>ev. DigitizerEvent_init w t = Inr ev \<and> waveform ev = w \<and> timestamp ev = t \<and>
           amplitude ev = - 1 * Min (set w) \<and> (Min (set w) \<le> 0 \<longrightarrow> 0 \<le> amplitude ev)"
proof -
  let ?ev = "\<lparr>waveform = w, timestamp = t, amplitude = - Min (set w)\<rparr>"
  have built: "DigitizerEvent_init w t = Inr ?ev"
    using assms by (rule DigitizerEvent_init_nonempty)
  have fields: "waveform ?ev = w" "timestamp ?ev = t"
    by simp_all
  have amp: "amplitude ?ev = - 1 * Min (set w)"
    by (simp only: DigitizerEvent.select_convs mult_minus1)
  have sign: "Min (set w) \<le> 0 \<longrightarrow> 0 \<le> amplitude ?ev"
  proof
    assume "Min (set w) \<le> 0"
    then have "0 \<le> - Min (set w)" by linarith
    then show "0 \<le> amplitude ?ev"
      by (simp only: DigitizerEvent.select_convs)
  qed
  from built fields amp sign show ?thesis
    by (intro exI [of _ ?ev] conjI)
qed

theorem DigitizerEvent_amplitude_witness:
  "\<exists>ev. DigitizerEvent_init [1 / 2, - 2, 1] 7 = Inr ev \<and> amplitude ev = 2"
proof -
  have "[1 / 2, - 2, 1] \<noteq> ([] :: real list)" by simp
  from DigitizerEvent_amplitude [OF this, of 7] obtain ev where
    "DigitizerEvent_init [1 / 2, - 2, 1] 7 = Inr ev"
    "amplitude ev = - 1 * Min (set [1 / 2, - 2, 1])"
    by blast
  then show ?thesis by simp
qed

text \<open>
  Claim C8. The claim names the error \<open>InvalidWaveformError\<close>. The source defines no
  such exception: building an event from an empty waveform fails in the amplitude
  derivation with the \<^verbatim>\<open>ValueError\<close> that \<^verbatim>\<open>np.amin\<close> raises, and no event is
  returned.
\<close>

theorem DigitizerEvent_empty_waveform:
  "DigitizerEvent_init [] t = Inl ValueError"
  by (simp add: DigitizerEvent_init_def np_amin_def and_then_def)

theorem DigitizerEvent_empty_waveform_counterexample:
  "DigitizerEvent_init [] 0 \<noteq> Inl InvalidWaveformError"
  by (simp add: DigitizerEvent_init_def np_amin_def and_then_def)

text \<open>
  Claim C10. With an empty timestamp array and some channel (paired with its waveform
  matrix) that has at least one waveform, building the event dictionary returns no
  mapping: the first draw from the cyclic cursor raises \<^verbatim>\<open>StopIteration\<close>.
\<close>

theorem create_events_dict_empty_timestamps:
  assumes ts: "timestamps data = []"
    and k: "k < length (channels data)" "k < length (waveforms data)"
    and some: "waveforms data ! k \<noteq> []"
  shows "create_events_dict data = Inl StopIteration"
proof -
  let ?zs = "zip (channels data) (waveforms data)"
  from k have "k < length ?zs" by simp
  then have "?zs ! k \<in> set ?zs" by (rule nth_mem)
  moreover from k have "snd (?zs ! k) = waveforms data ! k" by simp
  ultimately have "\<exists>ws \<in> snd ` set ?zs. ws \<noteq> []"
    using some by (metis imageI)
  from events_loop_empty_cycle [OF this, of Map.empty] ts show ?thesis
    by (simp add: create_events_dict_def cycle_init_def)
qed

theorem create_events_dict_empty_timestamps_witness:
  "create_events_dict \<lparr>channels = [0, 1], waveforms = [[], [[1]]], timestamps = [], timestamps_dtype = int64\<rparr>
     = Inl StopIteration"
  using create_events_dict_empty_timestamps
    [of "\<lparr>channels = [0, 1], waveforms = [[], [[1]]], timestamps = [], timestamps_dtype = int64\<rparr>" 1]
  by simp


section \<open>Channel discovery\<close>

lemma set_iteration_ascending: "set_iteration ascending"
  by (simp add: set_iteration_def ascending_def)

lemma is_digit_code: "is_digit c \<longleftrightarrow> 48 \<le> (of_char c :: nat) \<and> (of_char c :: nat) \<le> 57"
  by (simp add: is_digit_def digit_value_def Let_def)

lemma digit_value_digit: "is_digit c \<Longrightarrow> digit_value c = Some (of_char c - 48)"
  by (simp add: is_digit_code digit_value_def Let_def)

lemma digit_not_space: "is_digit c \<Longrightarrow> \<not> is_space c"
  by (auto simp: is_digit_code is_space_def)

lemma digit_not_char:
  assumes "is_digit c" and "(of_char x :: nat) < 48 \<or> 57 < (of_char x :: nat)"
  shows "c \<noteq> x"
  using assms by (auto simp: is_digit_code)

lemma str_contains_append: "str_contains sub (pre @ sub @ post)"
proof (induction pre)
  case Nil
  show ?case
  proof (cases "sub @ post")
    case Nil
    then show ?thesis by simp
  next
    case (Cons c s)
    have "startswith (sub @ post) sub" by (simp add: startswith_def)
    with Cons show ?thesis by simp
  qed
next
  case (Cons a pre)
  then show ?case by simp
qed

lemma split_from_single:
  "c \<notin> set a \<Longrightarrow> split_from [c] cur (a @ c # b) = (cur @ a) # split_from [c] [] b"
proof (induction a arbitrary: cur)
  case Nil
  then show ?case by (simp add: startswith_def)
next
  case (Cons x a)
  then have "x \<noteq> c" and "c \<notin> set a" by auto
  with Cons.IH [of "cur @ [x]"] show ?case
    by (simp add: startswith_def)
qed

lemma split_from_absent:
  "sep \<noteq> [] \<Longrightarrow> hd sep \<notin> set s \<Longrightarrow> split_from sep cur s = [cur @ s]"
proof (induction s arbitrary: cur)
  case Nil
  then show ?case by simp
next
  case (Cons x s)
  have "\<not> startswith (x # s) sep"
  proof
    assume "startswith (x # s) sep"
    then have "take (length sep) (x # s) = sep" by (simp add: startswith_def)
    with Cons.prems(1) have "hd sep = x" by (cases sep) auto
    with Cons.prems(2) show False by simp
  qed
  with Cons.IH [of "cur @ [x]"] Cons.prems show ?case by simp
qed

lemma digits_value_decimal:
  "list_all is_digit ds \<Longrightarrow> digits_value acc ds = Some (decimal acc ds)"
  by (induction acc ds rule: digits_value.induct) (simp_all add: digit_value_digit)

lemma str_strip_digits:
  assumes "ds \<noteq> []" and "list_all is_digit ds"
  shows "str_strip ds = ds"
proof -
  from assms have "\<not> is_space (hd ds)"
    by (cases ds) (auto dest: digit_not_space)
  with assms(1) have a: "dropWhile is_space ds = ds"
    by (cases ds) auto
  from assms have "is_digit (last ds)"
    by (metis last_in_set list_all_iff)
  then have "\<not> is_space (hd (rev ds))"
    using assms(1) by (simp add: hd_rev digit_not_space)
  with assms(1) have "dropWhile is_space (rev ds) = rev ds"
    by (cases "rev ds") auto
  with a show ?thesis by (simp add: str_strip_def)
qed

lemma py_int_digits:
  assumes ne: "ds \<noteq> []" and dig: "list_all is_digit ds"
    and len: "length ds \<le> int_max_str_digits"
  shows "py_int ds = Inr (int (decimal 0 ds))"
proof -
  from ne obtain d rest where ds: "ds = d # rest" by (cases ds) auto
  from dig ds have d: "is_digit d" and rest: "list_all is_digit rest" by simp_all
  have minus: "d \<noteq> CHR ''-''" and plus: "d \<noteq> CHR ''+''"
    by (rule digit_not_char [OF d], simp)+
  have sign: "split_sign ds = (False, ds)"
    using ds minus plus by (simp add: split_sign_def)
  have under: "\<forall>c \<in> set ds. c \<noteq> CHR ''_''"
  proof
    fix c assume "c \<in> set ds"
    with dig have "is_digit c" by (simp add: list_all_iff)
    then show "c \<noteq> CHR ''_''" by (rule digit_not_char) simp
  qed
  then have count: "filter (\<lambda>c. c \<noteq> CHR ''_'') ds = ds"
    by (simp add: filter_id_conv)
  have "py_int ds = Inr (int (decimal (of_char d - 48) rest))"
    using len count
    by (simp add: py_int_def str_strip_digits [OF ne dig] sign)
       (simp add: ds digit_value_digit [OF d] digits_value_decimal [OF rest])
  then show ?thesis by (simp add: ds)
qed

lemma pattern_number_key:
  assumes "pattern_number key = Some n"
  shows "\<exists>ds. key = ''channel'' @ ds @ ''_waveforms'' \<and> ds \<noteq> [] \<and> list_all is_digit ds \<and>
           length ds \<le> int_max_str_digits \<and> n = decimal 0 ds"
proof -
  let ?n = "length key"
  let ?ds = "take (?n - 17) (drop 7 key)"
  from assms have long: "17 < ?n" and short: "?n \<le> 17 + int_max_str_digits"
    and pre: "take 7 key = ''channel''" and post: "drop (?n - 10) key = ''_waveforms''"
    and dig: "list_all is_digit ?ds" and n: "n = decimal 0 ?ds"
    by (simp_all add: pattern_number_def Let_def split: if_splits)
  have "drop (?n - 17) (drop 7 key) = drop (?n - 10) key"
    using long by simp
  with post have tail: "drop 7 key = ?ds @ ''_waveforms''"
    by (metis append_take_drop_id)
  have "key = take 7 key @ drop 7 key" by simp
  with pre tail have key: "key = ''channel'' @ ?ds @ ''_waveforms''" by simp
  have len: "length ?ds = ?n - 17" using long by simp
  with long have ne: "?ds \<noteq> []" by auto
  from len short have "length ?ds \<le> int_max_str_digits" by simp
  with key ne dig n show ?thesis by blast
qed

lemma pattern_contains:
  assumes "pattern_number key = Some n"
  shows "str_contains ''waveforms'' key"
proof -
  from pattern_number_key [OF assms] obtain ds where
    "key = ''channel'' @ ds @ ''_waveforms''" by blast
  then have "key = (''channel'' @ ds @ ''_'') @ ''waveforms'' @ []" by simp
  then show ?thesis by (metis str_contains_append)
qed

lemma split_from_prefix:
  "sep \<noteq> [] \<Longrightarrow> split_from sep cur (sep @ s) = cur # split_from sep [] s"
  by (cases sep) (simp_all add: startswith_def)

lemma channel_of_key_pattern:
  assumes ne: "ds \<noteq> []" and dig: "list_all is_digit ds"
    and len: "length ds \<le> int_max_str_digits"
  shows "channel_of_key (''channel'' @ ds @ ''_waveforms'') = Inr (int (decimal 0 ds))"
proof -
  have no: "x \<notin> set ds" if "(of_char x :: nat) < 48 \<or> 57 < (of_char x :: nat)" for x
  proof
    assume "x \<in> set ds"
    with dig have "is_digit x" by (simp add: list_all_iff)
    from digit_not_char [OF this that] show False by simp
  qed
  have u: "CHR ''_'' \<notin> set ds" by (rule no) simp
  have c: "CHR ''c'' \<notin> set ds" by (rule no) simp
  have "CHR ''_'' \<notin> set (''channel'' @ ds)" using u by simp
  from split_from_single [OF this, of "[]" "''waveforms''"]
  have first: "str_split (''channel'' @ ds @ ''_waveforms'') ''_'' =
      Inr ((''channel'' @ ds) # split_from ''_'' [] ''waveforms'')"
    by (simp add: str_split_def)
  have "split_from ''channel'' [] ds = [ds]"
    using split_from_absent [of "''channel''" ds "[]"] c by simp
  with split_from_prefix [of "''channel''" "[]" ds]
  have second: "str_split (''channel'' @ ds) ''channel'' = Inr [[], ds]"
    by (simp add: str_split_def)
  have head: "list_get ((''channel'' @ ds) # split_from ''_'' [] ''waveforms'') 0 =
      Inr (''channel'' @ ds)"
    by (simp add: list_get_def)
  have piece: "list_get [[], ds] 1 = Inr ds"
    by (simp add: list_get_def)
  show ?thesis
    by (simp only: channel_of_key_def first and_then_def sum.case head second piece
        py_int_digits [OF ne dig len])
qed

lemma channel_numbers_pattern:
  "\<forall>key \<in> set keys. str_contains ''waveforms'' key \<longrightarrow> pattern_number key \<noteq> None \<Longrightarrow>
   channel_numbers keys = Inr (map int (List.map_filter pattern_number keys))"
proof (induction keys)
  case Nil
  then show ?case by (simp add: List.map_filter_simps)
next
  case (Cons key keys)
  then have ih: "channel_numbers keys = Inr (map int (List.map_filter pattern_number keys))"
    by simp
  show ?case
  proof (cases "pattern_number key")
    case None
    with Cons.prems have "\<not> str_contains ''waveforms'' key" by auto
    with ih None show ?thesis by (simp add: List.map_filter_simps)
  next
    case (Some n)
    from pattern_number_key [OF Some] obtain ds where
      "key = ''channel'' @ ds @ ''_waveforms''" "ds \<noteq> []" "list_all is_digit ds"
      "length ds \<le> int_max_str_digits" "n = decimal 0 ds"
      by blast
    with channel_of_key_pattern [of ds] have "channel_of_key key = Inr (int n)" by simp
    with ih Some pattern_contains [OF Some] show ?thesis
      by (simp add: List.map_filter_simps)
  qed
qed

lemma channel_numbers_skip:
  "\<forall>key \<in> set keys. \<not> str_contains ''waveforms'' key \<Longrightarrow> channel_numbers keys = Inr []"
  by (induction keys) simp_all

text \<open>
  Claim C9. The reader keeps every key that contains \<^verbatim>\<open>waveforms\<close> and parses it
  with \<^verbatim>\<open>split\<close> and \<^verbatim>\<open>int\<close>; it does not test the naming pattern. So a key outside
  the pattern that contains \<^verbatim>\<open>waveforms\<close> either raises (\<^verbatim>\<open>waveforms\<close> itself:
  \<^verbatim>\<open>IndexError\<close>) or contributes a channel (\<^verbatim>\<open>channel3_waveforms_old\<close>: channel 3).
  What holds: when every key that contains \<^verbatim>\<open>waveforms\<close> follows the pattern, the
  channel list is returned, has no duplicates, and its elements are exactly the
  numbers \<open>N\<close> of the keys that follow the pattern; keys that do not contain
  \<^verbatim>\<open>waveforms\<close> contribute nothing and raise nothing.
\<close>

theorem get_channel_list_pattern:
  assumes ord: "set_iteration set_order"
    and keys: "\<forall>key \<in> set (tree_keys file_content).
                 str_contains ''waveforms'' key \<longrightarrow> pattern_number key \<noteq> None"
  shows "\<exists>cs. get_channel_list set_order file_content = Inr cs \<and> distinct cs \<and>
           set cs = int ` set (List.map_filter pattern_number (tree_keys file_content))"
proof -
  let ?ns = "map int (List.map_filter pattern_number (tree_keys file_content))"
  from channel_numbers_pattern [OF keys]
  have "get_channel_list set_order file_content = Inr (set_order ?ns)"
    by (simp add: get_channel_list_def and_then_def)
  moreover from ord have "distinct (set_order ?ns)" and "set (set_order ?ns) = set ?ns"
    by (simp_all add: set_iteration_def)
  ultimately show ?thesis by simp
qed

theorem get_channel_list_pattern_witness:
  "\<exists>cs. get_channel_list ascending
          \<lparr>tree_keys = [''channel1_waveforms'', ''timestamp'', ''channel01_waveforms'',
                        ''channel0_waveforms''],
             waveform_array = (\<lambda>key. Inr []), timestamp_array = Inr (int64, [])\<rparr>
          = Inr cs \<and> distinct cs \<and> set cs = {0, 1}"
proof -
  let ?T = "\<lparr>tree_keys = [''channel1_waveforms'', ''timestamp'', ''channel01_waveforms'',
                        ''channel0_waveforms''],
             waveform_array = (\<lambda>key. Inr []), timestamp_array = Inr (int64, [])\<rparr>"
  have p: "map pattern_number (tree_keys ?T) = [Some 1, None, Some 1, Some 0]"
    by (simp add: pattern_number_def Let_def int_max_str_digits_def
        is_digit_def digit_value_def)
  have c: "map (str_contains ''waveforms'') (tree_keys ?T) = [True, False, True, True]"
    by (simp add: startswith_def)
  have keys: "\<forall>key \<in> set (tree_keys ?T).
      str_contains ''waveforms'' key \<longrightarrow> pattern_number key \<noteq> None"
    using p c by simp
  have "int ` set (List.map_filter pattern_number (tree_keys ?T)) = {0, 1}"
    using p by (auto simp: List.map_filter_simps)
  with get_channel_list_pattern [OF set_iteration_ascending keys] show ?thesis
    by simp
qed

theorem get_channel_list_counterexample:
  "pattern_number ''waveforms'' = None \<and>
   get_channel_list ascending
     \<lparr>tree_keys = [''timestamp'', ''waveforms''],
        waveform_array = (\<lambda>key. Inl KeyError), timestamp_array = Inr (int64, [1, 2])\<rparr>
     = Inl IndexError \<and>
   pattern_number ''channel3_waveforms_old'' = None \<and>
   get_channel_list ascending
     \<lparr>tree_keys = [''timestamp'', ''channel3_waveforms_old''],
        waveform_array = (\<lambda>key. Inl KeyError), timestamp_array = Inr (int64, [1, 2])\<rparr>
     = Inr [3]"
  by (simp add: pattern_number_def Let_def get_channel_list_def and_then_def
      channel_of_key_def str_split_def list_get_def startswith_def py_int_def str_strip_def
      is_space_def split_sign_def digit_value_def int_max_str_digits_def ascending_def)


section \<open>The pipeline on a source without waveform keys\<close>

lemma correct_timestamps_keeps:
  "correct_timestamps np c = Inr c1 \<Longrightarrow>
   channels c1 = channels c \<and> waveforms c1 = waveforms c \<and>
   timestamps_dtype c1 = timestamps_dtype c"
  by (auto simp: correct_timestamps_def and_then_def split: sum.splits)

lemma correct_timestamps_returns:
  assumes "in_range (timestamps_dtype c) (increment * int (length (reset_indices (timestamps c))))"
  shows "\<exists>c1. correct_timestamps np c = Inr c1"
proof -
  let ?dt = "timestamps_dtype c"
  let ?rs = "reset_indices (timestamps c)"
  have "\<forall>e \<in> set (enumerate 0 ?rs). in_range ?dt (increment * (int (fst e) + 1))"
  proof
    fix e assume e: "e \<in> set (enumerate 0 ?rs)"
    obtain i r where ir: "e = (i, r)" by (cases e)
    with e enumerate_member [of i r ?rs] have "i < length ?rs" by simp
    then have "int i + 1 \<le> int (length ?rs)" by simp
    with increment_pos have "increment * (int i + 1) \<le> increment * int (length ?rs)"
      by (simp add: mult_left_mono)
    moreover have "0 \<le> increment * (int i + 1)" using increment_pos by simp
    ultimately show "in_range ?dt (increment * (int (fst e) + 1))"
      using assms dtype_min_nonpos [of ?dt] ir by (simp add: in_range_def)
  qed
  from increment_loop_returns [OF this, of np "timestamps c"] show ?thesis
    by (auto simp: correct_timestamps_def and_then_def)
qed

text \<open>
  Claim C7. The claim asks only that no key follows the naming pattern. That is not
  enough: a key that contains \<^verbatim>\<open>waveforms\<close> without following the pattern makes
  the channel scan raise; a source without a \<^verbatim>\<open>timestamp\<close> branch raises \<^verbatim>\<open>KeyError\<close>
  when the timestamps are read; and the timestamp correction, which runs also when
  there is no channel, raises \<^verbatim>\<open>OverflowError\<close> under NumPy 2 when \<open>2^30\<close> times
  the position of a wraparound point is outside the range of the array's type (a
  signed 32-bit array with two wraparound points). What holds: when no key contains
  \<^verbatim>\<open>waveforms\<close>, the source has a \<^verbatim>\<open>timestamp\<close> branch, and \<open>2^30\<close> times the number
  of wraparound points of its timestamps is within the range of their type, the
  container is built with no channels and the whole pipeline returns the empty
  mapping.
\<close>

theorem create_from_file_no_waveform_keys:
  assumes ord: "set_iteration set_order"
    and nokeys: "\<forall>key \<in> set (tree_keys file_content). \<not> str_contains ''waveforms'' key"
    and stamp: "timestamp_array file_content = Inr (dt, ts)"
    and fits: "in_range dt (2 ^ 30 * int (length (reset_indices ts)))"
  shows "(\<exists>c. RawDataContainer_init np set_order file_content = Inr c \<and> channels c = []) \<and>
         create_from_file np set_order ops file_content = Inr Map.empty"
proof -
  let ?c = "\<lparr>channels = [], waveforms = [], timestamps = ts, timestamps_dtype = dt\<rparr>"
  from ord have "set (set_order []) = {}" by (simp add: set_iteration_def)
  then have none: "set_order [] = []" by simp
  have chans: "get_channel_list set_order file_content = Inr []"
    by (simp add: get_channel_list_def and_then_def channel_numbers_skip [OF nokeys] none)
  have stamps: "get_timestamps file_content = Inr (dt, ts)"
    by (simp add: get_timestamps_def stamp)
  have init: "RawDataContainer_init np set_order file_content = Inr ?c"
    by (simp add: RawDataContainer_init_def and_then_def chans stamps np_array_def
        same_shape_def)
  have "in_range (timestamps_dtype ?c) (increment * int (length (reset_indices (timestamps ?c))))"
    using fits by (simp add: increment_def)
  from correct_timestamps_returns [OF this, of np] obtain c1 where
    ct: "correct_timestamps np ?c = Inr c1" by blast
  from correct_timestamps_keeps [OF ct] have c1: "channels c1 = []" by simp
  have pre: "preprocess np ops ?c = Inr c1"
    using ct by (simp add: preprocess_def preprocess_raw_data_def subtract_baseline_def
        turn_into_volts_def and_then_def)
  have "create_events_dict c1 = Inr Map.empty"
    by (simp add: create_events_dict_def c1)
  with init pre have "create_from_file np set_order ops file_content = Inr Map.empty"
    by (simp add: create_from_file_def and_then_def)
  moreover from init
  have "\<exists>c. RawDataContainer_init np set_order file_content = Inr c \<and> channels c = []"
    by simp
  ultimately show ?thesis by (intro conjI)
qed

theorem create_from_file_no_waveform_keys_witness:
  "(\<exists>c. RawDataContainer_init numpy2 ascending
           \<lparr>tree_keys = [''timestamp'', ''event''], waveform_array = (\<lambda>key. Inl KeyError),
              timestamp_array = Inr (uint32, [5, 6, 2, 3])\<rparr> = Inr c \<and>
        channels c = []) \<and>
   create_from_file numpy2 ascending exact_ops
     \<lparr>tree_keys = [''timestamp'', ''event''], waveform_array = (\<lambda>key. Inl KeyError),
        timestamp_array = Inr (uint32, [5, 6, 2, 3])\<rparr> = Inr Map.empty"
proof -
  let ?T = "\<lparr>tree_keys = [''timestamp'', ''event''], waveform_array = (\<lambda>key. Inl KeyError),
        timestamp_array = Inr (uint32, [5, 6, 2, 3])\<rparr>"
  have nokeys: "\<forall>key \<in> set (tree_keys ?T). \<not> str_contains ''waveforms'' key"
    by (simp add: startswith_def)
  have stamp: "timestamp_array ?T = Inr (uint32, [5, 6, 2, 3])"
    by simp
  have "reset_indices [5, 6, 2, 3] = [2]"
    by (simp add: reset_indices_def np_where_def greater_mask_def upt_rec)
  then have fits: "in_range uint32 (2 ^ 30 * int (length (reset_indices [5, 6, 2, 3])))"
    by (simp add: in_range_def dtype_min_def dtype_max_def)
  from create_from_file_no_waveform_keys
    [OF set_iteration_ascending nokeys stamp fits, of numpy2 exact_ops]
  show ?thesis .
qed


theorem create_from_file_counterexample:
  "pattern_number ''timestamp'' = None \<and> pattern_number ''waveforms'' = None \<and>
   create_from_file numpy2 ascending exact_ops
     \<lparr>tree_keys = [''timestamp'', ''waveforms''],
        waveform_array = (\<lambda>key. if key = ''waveforms'' then Inr [[1]] else Inl KeyError),
        timestamp_array = Inr (int64, [1, 2])\<rparr> = Inl IndexError \<and>
   pattern_number ''time'' = None \<and>
   create_from_file numpy2 ascending exact_ops
     \<lparr>tree_keys = [''time''], waveform_array = (\<lambda>key. Inl KeyError),
        timestamp_array = Inl KeyError\<rparr> = Inl KeyError \<and>
   create_from_file numpy2 ascending exact_ops
     \<lparr>tree_keys = [''timestamp''], waveform_array = (\<lambda>key. Inl KeyError),
        timestamp_array = Inr (int32, [3, 1, 0, 5])\<rparr> = Inl OverflowError"
proof -
  let ?T1 = "\<lparr>tree_keys = [''timestamp'', ''waveforms''],
        waveform_array = (\<lambda>key. if key = ''waveforms'' then Inr [[1]] else Inl KeyError),
        timestamp_array = Inr (int64, [1, 2])\<rparr>"
  let ?T2 = "\<lparr>tree_keys = [''time''], waveform_array = (\<lambda>key. Inl KeyError),
        timestamp_array = Inl KeyError :: error + (dtype \<times> int list)\<rparr>"
  let ?T3 = "\<lparr>tree_keys = [''timestamp''], waveform_array = (\<lambda>key. Inl KeyError),
        timestamp_array = Inr (int32, [3, 1, 0, 5])\<rparr>"
  let ?c3 = "\<lparr>channels = [], waveforms = [], timestamps = [3, 1, 0, 5], timestamps_dtype = int32\<rparr>"
  have p: "pattern_number ''timestamp'' = None" "pattern_number ''waveforms'' = None"
    "pattern_number ''time'' = None"
    by (simp_all add: pattern_number_def Let_def)
  have "get_channel_list ascending ?T1 = Inl IndexError"
    by (simp add: get_channel_list_def and_then_def channel_of_key_def str_split_def
        list_get_def startswith_def)
  then have one: "create_from_file numpy2 ascending exact_ops ?T1 = Inl IndexError"
    by (simp add: create_from_file_def RawDataContainer_init_def and_then_def)
  have "get_channel_list ascending ?T2 = Inr []"
    by (simp add: get_channel_list_def and_then_def startswith_def ascending_def)
  then have "RawDataContainer_init numpy2 ascending ?T2 = Inl KeyError"
    by (simp add: RawDataContainer_init_def and_then_def np_array_def same_shape_def
        get_timestamps_def)
  then have two: "create_from_file numpy2 ascending exact_ops ?T2 = Inl KeyError"
    by (simp add: create_from_file_def and_then_def)
  have "get_channel_list ascending ?T3 = Inr []"
    by (simp add: get_channel_list_def and_then_def startswith_def ascending_def)
  then have init: "RawDataContainer_init numpy2 ascending ?T3 = Inr ?c3"
    by (simp add: RawDataContainer_init_def and_then_def np_array_def same_shape_def
        get_timestamps_def)
  have "reset_indices [3, 1, 0, 5] = [1, 2]"
    by (simp add: reset_indices_def np_where_def greater_mask_def upt_rec)
  then have "correct_timestamps numpy2 ?c3 = Inl OverflowError"
    by (simp add: correct_timestamps_def and_then_def enumerate_eq_zip upt_rec iadd_from_def
        increment_def in_range_def dtype_min_def dtype_max_def numpy2_def)
  then have "preprocess numpy2 exact_ops ?c3 = Inl OverflowError"
    by (simp add: preprocess_def preprocess_raw_data_def subtract_baseline_def
        turn_into_volts_def and_then_def)
  with init have three: "create_from_file numpy2 ascending exact_ops ?T3 = Inl OverflowError"
    by (simp add: create_from_file_def and_then_def)
  from p one two three show ?thesis by (intro conjI)
qed


section \<open>Shape of the container and preprocessing\<close>

lemma get_waveforms_length:
  "get_waveforms file_content cs = Inr ws \<Longrightarrow> length ws = length cs"
proof (induction cs arbitrary: ws)
  case Nil
  then show ?case by simp
next
  case (Cons c cs)
  from Cons.prems obtain m ms where
    "get_waveforms file_content cs = Inr ms" and "ws = m # ms"
    by (auto split: sum.splits)
  with Cons.IH show ?case by simp
qed

lemma np_array_Inr: "np_array np ms = Inr arr \<Longrightarrow> arr = ms"
  by (auto simp: np_array_def split: if_splits option.splits)

lemma RawDataContainer_init_shape:
  assumes ord: "set_iteration set_order"
    and init: "RawDataContainer_init np set_order file_content = Inr c"
  shows "distinct (channels c) \<and> length (channels c) = length (waveforms c)"
proof -
  from init obtain ns wfs arr where
    ns: "channel_numbers (tree_keys file_content) = Inr ns"
    and wfs: "get_waveforms file_content (set_order ns) = Inr wfs"
    and arr: "np_array np wfs = Inr arr"
    and c: "channels c = set_order ns" "waveforms c = arr"
    by (auto simp: RawDataContainer_init_def get_channel_list_def and_then_def
        split: sum.splits prod.splits)
  from ord have "distinct (set_order ns)" by (simp add: set_iteration_def)
  with get_waveforms_length [OF wfs] np_array_Inr [OF arr] c show ?thesis by simp
qed

lemma for_each_channel_positions:
  "\<forall>i \<in> set js. i < length wfs \<Longrightarrow> distinct js \<Longrightarrow>
   for_each_channel f js wfs =
     Inr (map (\<lambda>k. if k \<in> set js then f (wfs ! k) else wfs ! k) [0..<length wfs])"
proof (induction js arbitrary: wfs)
  case Nil
  then show ?case by (simp add: map_nth)
next
  case (Cons i js)
  let ?w = "wfs[i := f (wfs ! i)]"
  from Cons.prems have i: "i < length wfs" and notin: "i \<notin> set js"
    and rest: "\<forall>k \<in> set js. k < length ?w" and dist: "distinct js"
    by simp_all
  have "map (\<lambda>k. if k \<in> set js then f (?w ! k) else ?w ! k) [0..<length ?w] =
        map (\<lambda>k. if k \<in> set (i # js) then f (wfs ! k) else wfs ! k) [0..<length wfs]"
    using notin i by (auto simp: nth_list_update)
  with Cons.IH [OF rest dist] i show ?case by simp
qed

lemma for_each_channel_all:
  "for_each_channel f [0..<length wfs] wfs = Inr (map f wfs)"
proof -
  have "for_each_channel f [0..<length wfs] wfs =
      Inr (map (\<lambda>k. if k \<in> set [0..<length wfs] then f (wfs ! k) else wfs ! k) [0..<length wfs])"
    by (rule for_each_channel_positions) simp_all
  also have "map (\<lambda>k. if k \<in> set [0..<length wfs] then f (wfs ! k) else wfs ! k) [0..<length wfs]
      = map (\<lambda>k. f (wfs ! k)) [0..<length wfs]"
    by simp
  also have "\<dots> = map f (map (\<lambda>k. wfs ! k) [0..<length wfs])"
    by (simp add: comp_def)
  also have "\<dots> = map f wfs"
    by (simp add: map_nth)
  finally show ?thesis .
qed

lemma for_each_channel_enumerate:
  "n = length wfs \<Longrightarrow> for_each_channel f [0..<n] wfs = Inr (map f wfs)"
  by (simp add: for_each_channel_all)

lemma preprocess_shape:
  assumes len: "length (channels c) = length (waveforms c)"
  shows "preprocess np ops c =
     correct_timestamps np
       (c\<lparr>waveforms := map (\<lambda>m. volts_rows ops (baseline_rows ops m)) (waveforms c)\<rparr>)"
proof -
  have one: "subtract_baseline ops c = Inr (c\<lparr>waveforms := map (baseline_rows ops) (waveforms c)\<rparr>)"
    by (simp add: subtract_baseline_def and_then_def len for_each_channel_enumerate)
  let ?c1 = "c\<lparr>waveforms := map (baseline_rows ops) (waveforms c)\<rparr>"
  have "length (channels ?c1) = length (waveforms ?c1)" using len by simp
  then have two: "turn_into_volts ops ?c1 =
      Inr (?c1\<lparr>waveforms := map (volts_rows ops) (waveforms ?c1)\<rparr>)"
    by (simp add: turn_into_volts_def and_then_def for_each_channel_enumerate)
  show ?thesis
    by (simp add: preprocess_def preprocess_raw_data_def and_then_def one two comp_def)
qed

lemma correct_timestamps_waveforms:
  "correct_timestamps np c = Inr c2 \<Longrightarrow>
   correct_timestamps np (c\<lparr>waveforms := w\<rparr>) = Inr (c2\<lparr>waveforms := w\<rparr>)"
  by (auto simp: correct_timestamps_def and_then_def split: sum.splits)

text \<open>
  Preprocessing, sample by sample. For a container with one waveform matrix per
  channel on which the timestamp correction returns, \<^verbatim>\<open>preprocess\<close> returns; it
  keeps the channels, corrects the timestamps, and turns the sample at position \<open>j\<close>
  of a waveform \<open>w\<close> into the floating point result of
  \<^verbatim>\<open>(w[j] - mean(w[:50])) / 4096\<close>, whatever the three floating point operations
  round to. With exact arithmetic, a waveform of 60 samples whose first 50 are 1000 and
  whose sample 55 is 4096 ends with \<open>(4096 - 1000) / 4096\<close> at position 55.
\<close>

theorem preprocess_samples:
  assumes len: "length (channels c) = length (waveforms c)"
    and k: "k < length (waveforms c)" and e: "e < length (waveforms c ! k)"
    and j: "j < length (waveforms c ! k ! e)"
    and ct: "correct_timestamps np c = Inr c2"
  shows "\<exists>c1. preprocess np ops c = Inr c1 \<and> channels c1 = channels c \<and>
           timestamps c1 = timestamps c2 \<and>
           waveforms c1 ! k ! e ! j =
             fl_div ops
               (fl_sub ops (waveforms c ! k ! e ! j) (fl_mean ops (take 50 (waveforms c ! k ! e))))
               4096"
proof -
  let ?w = "map (\<lambda>m. volts_rows ops (baseline_rows ops m)) (waveforms c)"
  let ?c1 = "c2\<lparr>waveforms := ?w\<rparr>"
  have "preprocess np ops c = correct_timestamps np (c\<lparr>waveforms := ?w\<rparr>)"
    by (rule preprocess_shape [OF len])
  with correct_timestamps_waveforms [OF ct, of ?w] have ret: "preprocess np ops c = Inr ?c1"
    by simp
  from correct_timestamps_keeps [OF ct] have chans: "channels ?c1 = channels c"
    by simp
  have stamps: "timestamps ?c1 = timestamps c2"
    by simp
  have "waveforms ?c1 = ?w" by simp
  with k e j have "waveforms ?c1 ! k ! e ! j =
             fl_div ops
               (fl_sub ops (waveforms c ! k ! e ! j) (fl_mean ops (take 50 (waveforms c ! k ! e))))
               4096"
    by (simp add: volts_rows_def baseline_rows_def)
  with ret chans stamps show ?thesis by blast
qed

theorem preprocess_samples_witness:
  "\<exists>c1. preprocess numpy2 exact_ops
          \<lparr>channels = [0], waveforms = [[replicate 50 1000 @ replicate 10 4096]],
             timestamps = [5, 6, 2, 3], timestamps_dtype = int64\<rparr> = Inr c1 \<and>
        waveforms c1 ! 0 ! 0 ! 55 = (4096 - 1000) / 4096"
proof -
  let ?w = "replicate 50 1000 @ replicate 10 (4096 :: real)"
  let ?X = "\<lparr>channels = [0], waveforms = [[?w]], timestamps = [5, 6, 2, 3],
             timestamps_dtype = int64\<rparr>"
  have pre: "length (channels ?X) = length (waveforms ?X)" "0 < length (waveforms ?X)"
    "0 < length (waveforms ?X ! 0)" "55 < length (waveforms ?X ! 0 ! 0)"
    by simp_all
  have "reset_indices [5, 6, 2, 3] = [2]"
    by (simp add: reset_indices_def np_where_def greater_mask_def upt_rec)
  then have "in_range (timestamps_dtype ?X)
      (increment * int (length (reset_indices (timestamps ?X))))"
    by (simp add: in_range_def dtype_min_def dtype_max_def increment_def)
  from correct_timestamps_returns [OF this, of numpy2] obtain c2 where
    ct: "correct_timestamps numpy2 ?X = Inr c2" by blast
  from preprocess_samples [OF pre ct, of exact_ops] obtain c1 where
    ret: "preprocess numpy2 exact_ops ?X = Inr c1"
    and val: "waveforms c1 ! 0 ! 0 ! 55 =
       fl_div exact_ops
         (fl_sub exact_ops (waveforms ?X ! 0 ! 0 ! 55)
            (fl_mean exact_ops (take 50 (waveforms ?X ! 0 ! 0)))) 4096"
    by blast
  have mean: "fl_mean exact_ops (take 50 ?w) = 1000"
    by (simp add: exact_ops_def sum_list_replicate)
  have at: "?w ! 55 = 4096"
    by (simp add: nth_append)
  from val mean at have "waveforms c1 ! 0 ! 0 ! 55 = (4096 - 1000) / 4096"
    by (simp add: exact_ops_def)
  with ret show ?thesis by blast
qed

lemma preprocessed_container_shape:
  assumes ord: "set_iteration set_order"
    and init: "RawDataContainer_init np set_order file_content = Inr c"
    and pre: "preprocess np ops c = Inr c1"
  shows "distinct (channels c1) \<and> length (channels c1) = length (waveforms c1)"
proof -
  from RawDataContainer_init_shape [OF ord init]
  have d: "distinct (channels c)" and len: "length (channels c) = length (waveforms c)"
    by simp_all
  let ?c = "c\<lparr>waveforms := map (\<lambda>m. volts_rows ops (baseline_rows ops m)) (waveforms c)\<rparr>"
  from pre preprocess_shape [OF len, of np ops] have "correct_timestamps np ?c = Inr c1"
    by simp
  from correct_timestamps_keeps [OF this] d len show ?thesis by simp
qed

end
